theory Spec2Isabelle
  imports Main "HOL-Library.Multiset" "HOL-Library.Sublist"
begin

section \<open>Machine integers\<close>

text \<open>
  The demos are compiled for a platform where \<^verbatim>\<open>int\<close> has 32 bits, \<^verbatim>\<open>long long\<close> has 64
  bits and \<^verbatim>\<open>size_t\<close> has 64 bits. A C++ integer is modelled as a HOL \<open>int\<close>, a \<^verbatim>\<open>size_t\<close>
  counter as a \<open>nat\<close>. The result of a signed operation or of a narrowing conversion that
  can leave the range of its type is wrapped to two's complement by \<open>i32\<close> or \<open>i64\<close>;
  signed overflow is undefined behaviour in C++, and the wrapped value is what the usual
  compilers compute. The counter of a loop \<^verbatim>\<open>for (int i = ...; i <= n; ++i)\<close> is not
  wrapped: its increment leaves the range of \<^verbatim>\<open>int\<close> only when \<open>n\<close> is \<^verbatim>\<open>INT_MAX\<close>, an input
  no statement below is about.
\<close>

definition i32 :: "int \<Rightarrow> int" where
  "i32 x = (x + 2147483648) mod 4294967296 - 2147483648"

definition i64 :: "int \<Rightarrow> int" where
  "i64 x = (x + 9223372036854775808) mod 18446744073709551616 - 9223372036854775808"

definition INT_MAX :: int where
  "INT_MAX = 2147483647"

definition LLONG_MAX :: int where
  "LLONG_MAX = 9223372036854775807"

section \<open>error\_demo.cpp\<close>

text \<open>
  The two messages of \<^verbatim>\<open>validate_age\<close> (the source has them in Chinese: "age must not be
  negative", "age is unreasonable").
\<close>

datatype what = age_negative | age_unreasonable

datatype exn = invalid_argument what

text \<open>
  \<^verbatim>\<open>void validate_age(int age)\<close>: the function reads its parameter only. The program state
  \<open>s\<close> is threaded through and returned as it was; a \<^verbatim>\<open>throw\<close> is the value \<open>Inl\<close>.
\<close>

definition validate_age :: "int \<Rightarrow> 's \<Rightarrow> (exn + unit) \<times> 's" where
  "validate_age age s =
     (if age < 0 then (Inl (invalid_argument age_negative), s)
      else if age > 150 then (Inl (invalid_argument age_unreasonable), s)
      else (Inr (), s))"

text \<open>
  \<^verbatim>\<open>std::optional<int> find_index(const std::vector<int>& v, int target)\<close>: the loop over
  the \<^verbatim>\<open>size_t\<close> counter \<open>i\<close>, and \<^verbatim>\<open>static_cast<int>(i)\<close> as \<open>i32\<close>.
\<close>

function find_index_loop :: "int list \<Rightarrow> int \<Rightarrow> nat \<Rightarrow> int option" where
  "find_index_loop v target i =
     (if i < length v
      then (if v ! i = target then Some (i32 (int i))
            else find_index_loop v target (i + 1))
      else None)"
  by pat_completeness auto
termination
  by (relation "measure (\<lambda>(v, target, i). length v - i)") auto

declare find_index_loop.simps [simp del]

definition find_index :: "int list \<Rightarrow> int \<Rightarrow> int option" where
  "find_index v target = find_index_loop v target 0"

section \<open>Factorials\<close>

text \<open>
  \<^verbatim>\<open>basic_demo.cpp\<close>:
  \<^verbatim>\<open>constexpr int factorial(int n) { return n <= 1 ? 1 : n * factorial(n - 1); }\<close>
\<close>

function factorial_basic_demo :: "int \<Rightarrow> int" where
  "factorial_basic_demo n = (if n \<le> 1 then 1 else i32 (n * factorial_basic_demo (n - 1)))"
  by pat_completeness auto
termination
  by (relation "measure nat") auto

declare factorial_basic_demo.simps [simp del]

text \<open>
  \<^verbatim>\<open>constexpr_demo.cpp\<close>: \<^verbatim>\<open>constexpr int factorial(int n)\<close>, the loop
  \<^verbatim>\<open>for (int i = 2; i <= n; ++i) result *= i;\<close>
\<close>

function factorial_loop :: "int \<Rightarrow> int \<Rightarrow> int \<Rightarrow> int" where
  "factorial_loop n result i =
     (if i \<le> n then factorial_loop n (i32 (result * i)) (i + 1) else result)"
  by pat_completeness auto
termination
  by (relation "measure (\<lambda>(n, result, i). nat (n + 1 - i))") auto

declare factorial_loop.simps [simp del]

definition factorial_constexpr_demo :: "int \<Rightarrow> int" where
  "factorial_constexpr_demo n = factorial_loop n 1 2"

text \<open>
  \<^verbatim>\<open>recursion_demo.cpp\<close>: \<^verbatim>\<open>long long factorial(int n)\<close>, \<^verbatim>\<open>long long factorial_normal(int n)\<close>
  (the same body) and \<^verbatim>\<open>long long factorial_tail(int n, long long acc = 1)\<close>. The product
  is computed in \<^verbatim>\<open>long long\<close>.
\<close>

function factorial_recursion_demo :: "int \<Rightarrow> int" where
  "factorial_recursion_demo n =
     (if n \<le> 1 then 1 else i64 (n * factorial_recursion_demo (n - 1)))"
  by pat_completeness auto
termination
  by (relation "measure nat") auto

declare factorial_recursion_demo.simps [simp del]

function factorial_normal :: "int \<Rightarrow> int" where
  "factorial_normal n = (if n \<le> 1 then 1 else i64 (n * factorial_normal (n - 1)))"
  by pat_completeness auto
termination
  by (relation "measure nat") auto

declare factorial_normal.simps [simp del]

function factorial_tail :: "int \<Rightarrow> int \<Rightarrow> int" where
  "factorial_tail n acc = (if n \<le> 1 then acc else factorial_tail (n - 1) (i64 (n * acc)))"
  by pat_completeness auto
termination
  by (relation "measure (\<lambda>(n, acc). nat n)") auto

declare factorial_tail.simps [simp del]

section \<open>Fibonacci numbers\<close>

text \<open>The textbook sequence the implementations are compared with: \<open>F(0) = 0\<close>, \<open>F(1) = 1\<close>.\<close>

fun fib_number :: "nat \<Rightarrow> nat" where
  "fib_number 0 = 0"
| "fib_number (Suc 0) = 1"
| "fib_number (Suc (Suc n)) = fib_number (Suc n) + fib_number n"

text \<open>
  What goes wrong with a vector: \<^verbatim>\<open>std::vector<T> dp(k)\<close> with a negative \<^verbatim>\<open>int\<close> \<open>k\<close> asks for
  more than \<^verbatim>\<open>max_size()\<close> elements and throws \<^verbatim>\<open>std::length_error\<close>; an access \<^verbatim>\<open>dp[k]\<close>
  outside the vector is undefined behaviour.
\<close>

datatype vector_fault = length_error | out_of_bounds

text \<open>\<^verbatim>\<open>recursion_demo.cpp\<close>: \<^verbatim>\<open>long long fib_naive(int n)\<close>.\<close>

function fib_naive :: "int \<Rightarrow> int" where
  "fib_naive n = (if n \<le> 1 then n else i64 (fib_naive (n - 1) + fib_naive (n - 2)))"
  by pat_completeness auto
termination
  by (relation "measure nat") auto

declare fib_naive.simps [simp del]

text \<open>
  \<^verbatim>\<open>recursion_demo.cpp\<close>: \<^verbatim>\<open>long long fib_memoized(int n)\<close> over the global
  \<^verbatim>\<open>std::unordered_map<int, long long> fib_memo\<close>, which is the state \<open>memo\<close> here. The two
  recursive calls are taken from left to right.
\<close>

function fib_memoized :: "int \<Rightarrow> (int \<rightharpoonup> int) \<Rightarrow> int \<times> (int \<rightharpoonup> int)" where
  "fib_memoized n memo =
     (if n \<le> 1 then (n, memo)
      else (case memo n of
              Some v \<Rightarrow> (v, memo)
            | None \<Rightarrow>
                (case fib_memoized (n - 1) memo of (a, memo1) \<Rightarrow>
                  (case fib_memoized (n - 2) memo1 of (b, memo2) \<Rightarrow>
                    (i64 (a + b), memo2(n \<mapsto> i64 (a + b)))))))"
  by pat_completeness auto
termination
  by (relation "measure (\<lambda>(n, memo). nat n)") auto

declare fib_memoized.simps [simp del]

text \<open>
  \<^verbatim>\<open>recursion_demo.cpp\<close>: \<^verbatim>\<open>long long fib_memo_vec(int n, std::vector<long long>& memo)\<close>.
  \<open>None\<close> is an access \<^verbatim>\<open>memo[n]\<close> beyond the end of the vector.
\<close>

function fib_memo_vec :: "int \<Rightarrow> int list \<Rightarrow> (int \<times> int list) option" where
  "fib_memo_vec n memo =
     (if n \<le> 1 then Some (n, memo)
      else if length memo \<le> nat n then None
      else if memo ! nat n \<noteq> - 1 then Some (memo ! nat n, memo)
      else (case fib_memo_vec (n - 1) memo of
              None \<Rightarrow> None
            | Some (a, memo1) \<Rightarrow>
                (case fib_memo_vec (n - 2) memo1 of
                   None \<Rightarrow> None
                 | Some (b, memo2) \<Rightarrow>
                     if length memo2 \<le> nat n then None
                     else Some (i64 (a + b), memo2[nat n := i64 (a + b)]))))"
  by pat_completeness auto
termination
  by (relation "measure (\<lambda>(n, memo). nat n)") auto

declare fib_memo_vec.simps [simp del]

text \<open>
  \<^verbatim>\<open>recursion_demo.cpp\<close>: \<^verbatim>\<open>long long fib_tail(int n, long long a = 0, long long b = 1)\<close>.
  For a negative \<open>n\<close> the recursion does not stop at 0 or 1, so the function is partial and
  \<open>n - 1\<close> can leave the range of \<^verbatim>\<open>int\<close>.
\<close>

partial_function (option) fib_tail :: "int \<Rightarrow> int \<Rightarrow> int \<Rightarrow> int option" where
  "fib_tail n a b =
     (if n = 0 then Some a
      else if n = 1 then Some b
      else fib_tail (i32 (n - 1)) b (i64 (a + b)))"

text \<open>\<^verbatim>\<open>dp_demo.cpp\<close>: \<^verbatim>\<open>long long fib_memo(int n, std::vector<long long>& memo)\<close>.\<close>

function fib_memo :: "int \<Rightarrow> int list \<Rightarrow> (int \<times> int list) option" where
  "fib_memo n memo =
     (if n \<le> 1 then Some (n, memo)
      else if length memo \<le> nat n then None
      else if memo ! nat n \<noteq> - 1 then Some (memo ! nat n, memo)
      else (case fib_memo (n - 1) memo of
              None \<Rightarrow> None
            | Some (a, memo1) \<Rightarrow>
                (case fib_memo (n - 2) memo1 of
                   None \<Rightarrow> None
                 | Some (b, memo2) \<Rightarrow>
                     if length memo2 \<le> nat n then None
                     else Some (i64 (a + b), memo2[nat n := i64 (a + b)]))))"
  by pat_completeness auto
termination
  by (relation "measure (\<lambda>(n, memo). nat n)") auto

declare fib_memo.simps [simp del]

text \<open>
  \<^verbatim>\<open>dp_demo.cpp\<close>: \<^verbatim>\<open>long long fib_dp(int n)\<close>. The table has \<open>n + 1\<close> zeros; the loop
  \<^verbatim>\<open>for (int i = 2; i <= n; ++i) dp[i] = dp[i - 1] + dp[i - 2];\<close> fills it.
\<close>

function fib_dp_loop :: "int \<Rightarrow> int list \<Rightarrow> int \<Rightarrow> int list" where
  "fib_dp_loop n dp i =
     (if i \<le> n
      then fib_dp_loop n (dp[nat i := i64 (dp ! nat (i - 1) + dp ! nat (i - 2))]) (i + 1)
      else dp)"
  by pat_completeness auto
termination
  by (relation "measure (\<lambda>(n, dp, i). nat (n + 1 - i))") auto

declare fib_dp_loop.simps [simp del]

definition fib_dp :: "int \<Rightarrow> vector_fault + int" where
  "fib_dp n =
     (if n \<le> 1 then Inr n
      else if i32 (n + 1) < 0 then Inl length_error
      else Inr (fib_dp_loop n ((replicate (nat (i32 (n + 1))) 0)[0 := 0, 1 := 1]) 2 ! nat n))"

text \<open>\<^verbatim>\<open>dp_demo.cpp\<close>: \<^verbatim>\<open>long long fib_optimized(int n)\<close>.\<close>

function fib_optimized_loop :: "int \<Rightarrow> int \<Rightarrow> int \<Rightarrow> int \<Rightarrow> int" where
  "fib_optimized_loop n prev2 prev1 i =
     (if i \<le> n then fib_optimized_loop n prev1 (i64 (prev1 + prev2)) (i + 1) else prev1)"
  by pat_completeness auto
termination
  by (relation "measure (\<lambda>(n, prev2, prev1, i). nat (n + 1 - i))") auto

declare fib_optimized_loop.simps [simp del]

definition fib_optimized :: "int \<Rightarrow> int" where
  "fib_optimized n = (if n \<le> 1 then n else fib_optimized_loop n 0 1 2)"

text \<open>\<^verbatim>\<open>constexpr_demo.cpp\<close>: \<^verbatim>\<open>constexpr int fibonacci(int n)\<close>.\<close>

function fibonacci_loop :: "int \<Rightarrow> int \<Rightarrow> int \<Rightarrow> int \<Rightarrow> int" where
  "fibonacci_loop n a b i =
     (if i \<le> n then fibonacci_loop n b (i32 (a + b)) (i + 1) else b)"
  by pat_completeness auto
termination
  by (relation "measure (\<lambda>(n, a, b, i). nat (n + 1 - i))") auto

declare fibonacci_loop.simps [simp del]

definition fibonacci :: "int \<Rightarrow> int" where
  "fibonacci n = (if n \<le> 1 then n else fibonacci_loop n 0 1 2)"

text \<open>
  \<^verbatim>\<open>constexpr_demo.cpp\<close>: \<^verbatim>\<open>constexpr std::array<int, 10> create_fibonacci_table()\<close>, the loop
  \<^verbatim>\<open>for (int i = 2; i < 10; ++i) arr[i] = arr[i-1] + arr[i-2];\<close>
\<close>

function fibonacci_table_loop :: "int list \<Rightarrow> int \<Rightarrow> int list" where
  "fibonacci_table_loop arr i =
     (if i < 10
      then fibonacci_table_loop (arr[nat i := i32 (arr ! nat (i - 1) + arr ! nat (i - 2))]) (i + 1)
      else arr)"
  by pat_completeness auto
termination
  by (relation "measure (\<lambda>(arr, i). nat (10 - i))") auto

declare fibonacci_table_loop.simps [simp del]

definition create_fibonacci_table :: "int list" where
  "create_fibonacci_table = fibonacci_table_loop ((replicate 10 0)[0 := 0, 1 := 1]) 2"

text \<open>
  What the memoising implementations expect of the memo they are given for the argument \<open>n\<close>:
  for every index \<open>k\<close> from 2 to \<open>n\<close>, an entry that is present (in the map), or that is not
  the marker \<open>-1\<close> (in the vector), holds the Fibonacci number of \<open>k\<close>, and the vector has an
  element of index \<open>k\<close>. The empty map and a vector of more than \<open>n\<close> markers satisfy it;
  nothing is asked of the memo when \<open>n \<le> 1\<close>, nor of its entries beyond \<open>n\<close>.
\<close>

definition fib_map_ok :: "int \<Rightarrow> (int \<rightharpoonup> int) \<Rightarrow> bool" where
  "fib_map_ok n memo \<longleftrightarrow>
     (\<forall>k\<in>{2..n}. case memo k of None \<Rightarrow> True | Some v \<Rightarrow> v = int (fib_number (nat k)))"

definition fib_table_ok :: "int \<Rightarrow> int list \<Rightarrow> bool" where
  "fib_table_ok n memo \<longleftrightarrow>
     (\<forall>k\<in>{2..nat n}. k < length memo \<and> (memo ! k = - 1 \<or> memo ! k = int (fib_number k)))"

section \<open>recursion\_demo.cpp: the Tower of Hanoi\<close>











section \<open>raii\_demo.cpp: the file of the RAII demo\<close>

text \<open>
  The part of the world the program acts on. A directory entry is a path that names a
  regular file, by the number of its inode (two paths with the same number are hard links
  to one file), or a symbolic link, by the path it points to; the data of the files are
  kept by inode number. What the system lets the process do is not changed by the
  program: the paths at which it may create an entry, the paths whose entry it may delete
  (an append-only directory allows the first and not the second), and the paths it may
  open for writing and for reading (a file the process creates gets its permissions from
  the umask, so it need not be readable). A new file gets the inode number \<open>next_inode\<close>.
  The field \<open>events\<close> is the record of the file operations that took effect during the
  run, in their order; the program does not read it.
\<close>

datatype entry = regular nat | symlink string

datatype event =
    Created string
  | Written string string
  | Read string string
  | Removed string

record world =
  entries :: "string \<rightharpoonup> entry"
  contents :: "nat \<rightharpoonup> string"
  next_inode :: nat
  creatable :: "string set"
  deletable :: "string set"
  writable :: "string set"
  readable :: "string set"
  events :: "event list"



text \<open>
  The file a path names: symbolic links are followed, at most 40 of them (the limit of
  Linux; beyond it the lookup fails). The result is a path that is not a symbolic link,
  with or without an entry.
\<close>

fun resolve :: "nat \<Rightarrow> world \<Rightarrow> string \<Rightarrow> string option" where
  "resolve 0 w path = None"
| "resolve (Suc k) w path =
     (case entries w path of
        Some (symlink target) \<Rightarrow> resolve k w target
      | Some (regular i) \<Rightarrow> Some path
      | None \<Rightarrow> Some path)"

definition realpath :: "world \<Rightarrow> string \<Rightarrow> string option" where
  "realpath w name = resolve 41 w name"

























section \<open>dp\_demo.cpp: unique paths\<close>

text \<open>
  \<^verbatim>\<open>int unique_paths(int m, int n)\<close>. The inner loop
  \<^verbatim>\<open>for (int j = 1; j < n; ++j) dp[j] += dp[j - 1];\<close> and the outer loop
  \<^verbatim>\<open>for (int i = 1; i < m; ++i)\<close> around it, on the vector \<^verbatim>\<open>dp(n, 1)\<close>.
\<close>

function unique_paths_row :: "int \<Rightarrow> int list \<Rightarrow> int \<Rightarrow> int list" where
  "unique_paths_row n dp j =
     (if j < n
      then unique_paths_row n (dp[nat j := i32 (dp ! nat j + dp ! nat (j - 1))]) (j + 1)
      else dp)"
  by pat_completeness auto
termination
  by (relation "measure (\<lambda>(n, dp, j). nat (n - j))") auto

declare unique_paths_row.simps [simp del]

function unique_paths_rows :: "int \<Rightarrow> int \<Rightarrow> int list \<Rightarrow> int \<Rightarrow> int list" where
  "unique_paths_rows m n dp i =
     (if i < m then unique_paths_rows m n (unique_paths_row n dp 1) (i + 1) else dp)"
  by pat_completeness auto
termination
  by (relation "measure (\<lambda>(m, n, dp, i). nat (m - i))") auto

declare unique_paths_rows.simps [simp del]

definition unique_paths :: "int \<Rightarrow> int \<Rightarrow> vector_fault + int" where
  "unique_paths m n =
     (if n < 0 then Inl length_error
      else if n = 0 then Inl out_of_bounds
      else Inr (unique_paths_rows m n (replicate (nat n) 1) 1 ! nat (n - 1)))"

section \<open>sort\_search\_demo.cpp: quick sort\<close>

text \<open>
  The vector is a list, passed in and returned; the indices are \<^verbatim>\<open>int\<close>. The result \<open>None\<close>
  is undefined behaviour (an access \<^verbatim>\<open>arr[k]\<close> with \<open>k\<close> outside the vector) or a call that
  does not return.
\<close>

definition in_bounds :: "int list \<Rightarrow> int \<Rightarrow> bool" where
  "in_bounds arr k \<longleftrightarrow> 0 \<le> k \<and> k < int (length arr)"

text \<open>\<^verbatim>\<open>std::swap(arr[a], arr[b])\<close> for two positions inside the vector.\<close>

definition swap :: "int list \<Rightarrow> nat \<Rightarrow> nat \<Rightarrow> int list" where
  "swap arr a b = arr[a := arr ! b, b := arr ! a]"

text \<open>
  The loop of \<^verbatim>\<open>partition\<close>:
  \<^verbatim>\<open>for (int j = low; j < high; ++j) if (arr[j] < pivot) { ++i; std::swap(arr[i], arr[j]); }\<close>
\<close>

function partition_loop ::
  "int list \<Rightarrow> int \<Rightarrow> int \<Rightarrow> int \<Rightarrow> int \<Rightarrow> (int list \<times> int) option" where
  "partition_loop arr pivot high i j =
     (if j < high
      then (if \<not> in_bounds arr j then None
            else if arr ! nat j < pivot
            then (if \<not> in_bounds arr (i + 1) then None
                  else partition_loop (swap arr (nat (i + 1)) (nat j)) pivot high (i + 1) (j + 1))
            else partition_loop arr pivot high i (j + 1))
      else Some (arr, i))"
  by pat_completeness auto
termination
  by (relation "measure (\<lambda>(arr, pivot, high, i, j). nat (high - j))") auto

declare partition_loop.simps [simp del]

text \<open>
  \<^verbatim>\<open>int partition(std::vector<int>& arr, int low, int high)\<close>: the pivot is \<^verbatim>\<open>arr[high]\<close>,
  \<open>i\<close> starts at \<open>low - 1\<close>, and after the loop \<^verbatim>\<open>arr[i + 1]\<close> and \<^verbatim>\<open>arr[high]\<close> are swapped.
\<close>

definition partition :: "int list \<Rightarrow> int \<Rightarrow> int \<Rightarrow> (int list \<times> int) option" where
  "partition arr low high =
     (if \<not> in_bounds arr high then None
      else (case partition_loop arr (arr ! nat high) high (i32 (low - 1)) low of
              None \<Rightarrow> None
            | Some (arr', i) \<Rightarrow>
                if \<not> in_bounds arr' (i + 1) \<or> \<not> in_bounds arr' high then None
                else Some (swap arr' (nat (i + 1)) (nat high), i + 1)))"

text \<open>\<^verbatim>\<open>void quick_sort_impl(std::vector<int>& arr, int low, int high)\<close>.\<close>

partial_function (option) quick_sort_impl :: "int list \<Rightarrow> int \<Rightarrow> int \<Rightarrow> int list option" where
  "quick_sort_impl arr low high =
     (if low < high
      then (case partition arr low high of
              None \<Rightarrow> None
            | Some (arr1, pi) \<Rightarrow>
                Option.bind (quick_sort_impl arr1 low (pi - 1))
                  (\<lambda>arr2. quick_sort_impl arr2 (i32 (pi + 1)) high))
      else Some arr)"

text \<open>
  \<^verbatim>\<open>void quick_sort(std::vector<int>& arr)\<close>: \<^verbatim>\<open>arr.size() - 1\<close> is a \<^verbatim>\<open>size_t\<close>, converted
  to the \<^verbatim>\<open>int\<close> parameter \<open>high\<close>.
\<close>

definition quick_sort :: "int list \<Rightarrow> int list option" where
  "quick_sort arr =
     (if arr = [] then Some arr
      else quick_sort_impl arr 0 (i32 (int (length arr) - 1)))"

section \<open>dp\_demo.cpp: coin change\<close>

text \<open>
  The range-based loop \<^verbatim>\<open>for (int coin : coins)\<close> inside the loop over \<open>i\<close>:
  \<^verbatim>\<open>if (coin <= i && dp[i - coin] != amount + 1) dp[i] = std::min(dp[i], dp[i - coin] + 1);\<close>
\<close>

fun coin_change_coins :: "int \<Rightarrow> int \<Rightarrow> int list \<Rightarrow> int list \<Rightarrow> vector_fault + int list" where
  "coin_change_coins amount i [] dp = Inr dp"
| "coin_change_coins amount i (coin # coins) dp =
     (if coin \<le> i
      then (if \<not> in_bounds dp (i32 (i - coin)) then Inl out_of_bounds
            else if dp ! nat (i32 (i - coin)) \<noteq> i32 (amount + 1)
            then coin_change_coins amount i coins
                   (dp[nat i := min (dp ! nat i) (i32 (dp ! nat (i32 (i - coin)) + 1))])
            else coin_change_coins amount i coins dp)
      else coin_change_coins amount i coins dp)"

text \<open>The loop \<^verbatim>\<open>for (int i = 1; i <= amount; ++i)\<close>.\<close>

function coin_change_loop ::
  "int \<Rightarrow> int list \<Rightarrow> int list \<Rightarrow> int \<Rightarrow> vector_fault + int list" where
  "coin_change_loop amount coins dp i =
     (if i \<le> amount
      then (case coin_change_coins amount i coins dp of
              Inl fault \<Rightarrow> Inl fault
            | Inr dp' \<Rightarrow> coin_change_loop amount coins dp' (i + 1))
      else Inr dp)"
  by pat_completeness auto
termination
  by (relation "measure (\<lambda>(amount, coins, dp, i). nat (amount + 1 - i))") auto

declare coin_change_loop.simps [simp del]

text \<open>
  \<^verbatim>\<open>int coin_change(const std::vector<int>& coins, int amount)\<close>: the table
  \<^verbatim>\<open>dp(amount + 1, amount + 1)\<close> with \<^verbatim>\<open>dp[0] = 0\<close>, the two loops, and
  \<^verbatim>\<open>return dp[amount] > amount ? -1 : dp[amount];\<close>
\<close>

definition coin_change :: "int list \<Rightarrow> int \<Rightarrow> vector_fault + int" where
  "coin_change coins amount =
     (if i32 (amount + 1) < 0 then Inl length_error
      else if i32 (amount + 1) = 0 then Inl out_of_bounds
      else (case coin_change_loop amount coins
                  ((replicate (nat (i32 (amount + 1))) (i32 (amount + 1)))[0 := 0]) 1 of
              Inl fault \<Rightarrow> Inl fault
            | Inr dp \<Rightarrow>
                if \<not> in_bounds dp amount then Inl out_of_bounds
                else Inr (if dp ! nat amount > amount then - 1 else dp ! nat amount)))"

text \<open>
  What the claim speaks of: a list \<open>cs\<close> of coins, each one of the denominations, with
  repetition, pays the amount when its values sum to it; its length is the number of
  coins.
\<close>

definition pays :: "int list \<Rightarrow> int list \<Rightarrow> int \<Rightarrow> bool" where
  "pays coins cs amount \<longleftrightarrow> set cs \<subseteq> set coins \<and> sum_list cs = amount"

text \<open>
  Two notions for the table: \<open>fewest W none v\<close> says that \<open>v\<close> is the least length of a list
  satisfying \<open>W\<close>, or the marker \<open>none\<close> when no list does; \<open>via ps coins a\<close> are the lists
  paying \<open>a\<close> whose first coin is one of \<open>ps\<close>.
\<close>

definition fewest :: "(int list \<Rightarrow> bool) \<Rightarrow> int \<Rightarrow> int \<Rightarrow> bool" where
  "fewest W none v \<longleftrightarrow>
     (if \<exists>cs. W cs
      then (\<exists>cs. W cs \<and> v = int (length cs)) \<and> (\<forall>cs. W cs \<longrightarrow> v \<le> int (length cs))
      else v = none)"

definition via :: "int list \<Rightarrow> int list \<Rightarrow> int \<Rightarrow> int list \<Rightarrow> bool" where
  "via ps coins a cs \<longleftrightarrow> (\<exists>c cs'. cs = c # cs' \<and> c \<in> set ps \<and> pays coins cs' (a - c))"

section \<open>dp\_demo.cpp: longest increasing subsequence\<close>

text \<open>
  \<^verbatim>\<open>int length_of_lis_n2(const std::vector<int>& nums)\<close>. The counters \<open>i\<close> and \<open>j\<close> are
  \<^verbatim>\<open>size_t\<close>; the table \<open>dp\<close> and \<open>max_len\<close> are \<^verbatim>\<open>int\<close>. The inner loop is
  \<^verbatim>\<open>for (size_t j = 0; j < i; ++j) if (nums[j] < nums[i]) dp[i] = std::max(dp[i], dp[j] + 1);\<close>
\<close>

function lis_n2_inner :: "int list \<Rightarrow> int list \<Rightarrow> nat \<Rightarrow> nat \<Rightarrow> int list" where
  "lis_n2_inner nums dp i j =
     (if j < i
      then lis_n2_inner nums
             (if nums ! j < nums ! i then dp[i := max (dp ! i) (i32 (dp ! j + 1))] else dp)
             i (j + 1)
      else dp)"
  by pat_completeness auto
termination
  by (relation "measure (\<lambda>(nums, dp, i, j). i - j)") auto

declare lis_n2_inner.simps [simp del]

text \<open>
  The outer loop \<^verbatim>\<open>for (size_t i = 1; i < nums.size(); ++i)\<close>, which ends each round with
  \<^verbatim>\<open>max_len = std::max(max_len, dp[i]);\<close>
\<close>

function lis_n2_outer :: "int list \<Rightarrow> int list \<Rightarrow> int \<Rightarrow> nat \<Rightarrow> int" where
  "lis_n2_outer nums dp max_len i =
     (if i < length nums
      then (let dp' = lis_n2_inner nums dp i 0
            in lis_n2_outer nums dp' (max max_len (dp' ! i)) (i + 1))
      else max_len)"
  by pat_completeness auto
termination
  by (relation "measure (\<lambda>(nums, dp, max_len, i). length nums - i)") auto

declare lis_n2_outer.simps [simp del]

definition length_of_lis_n2 :: "int list \<Rightarrow> int" where
  "length_of_lis_n2 nums =
     (if nums = [] then 0
      else lis_n2_outer nums (replicate (length nums) 1) 1 1)"

text \<open>
  \<^verbatim>\<open>std::lower_bound(tails.begin(), tails.end(), num)\<close> as the C++ standard specifies it: the
  first position whose element is not less than \<open>num\<close>, or the end. (The vector \<open>tails\<close> is
  kept in increasing order, so the elements less than \<open>num\<close> are a prefix of it.)
\<close>

definition lower_bound :: "int list \<Rightarrow> int \<Rightarrow> nat" where
  "lower_bound tails num = length (takeWhile (\<lambda>t. t < num) tails)"

text \<open>
  \<^verbatim>\<open>int length_of_lis(const std::vector<int>& nums)\<close>: the loop \<^verbatim>\<open>for (int num : nums)\<close> over the
  vector \<open>tails\<close>, and the conversion of \<^verbatim>\<open>tails.size()\<close> to the \<^verbatim>\<open>int\<close> returned.
\<close>

fun lis_tails :: "int list \<Rightarrow> int list \<Rightarrow> int list" where
  "lis_tails [] tails = tails"
| "lis_tails (num # nums) tails =
     (let it = lower_bound tails num
      in if it = length tails then lis_tails nums (tails @ [num])
         else lis_tails nums (tails[it := num]))"

definition length_of_lis :: "int list \<Rightarrow> int" where
  "length_of_lis nums = i32 (int (length (lis_tails nums [])))"

text \<open>
  What the claim speaks of: \<open>ys\<close> is a strictly increasing subsequence of \<open>xs\<close>, and \<open>m\<close> is
  the length of a longest one.
\<close>

definition increasing_subseq :: "int list \<Rightarrow> int list \<Rightarrow> bool" where
  "increasing_subseq ys xs \<longleftrightarrow> subseq ys xs \<and> sorted_wrt (<) ys"

definition longest_increasing :: "int list \<Rightarrow> nat \<Rightarrow> bool" where
  "longest_increasing xs m \<longleftrightarrow>
     (\<exists>ys. increasing_subseq ys xs \<and> length ys = m)
     \<and> (\<forall>ys. increasing_subseq ys xs \<longrightarrow> length ys \<le> m)"

text \<open>
  For the table of the quadratic version: \<open>d\<close> is the length of a longest strictly
  increasing subsequence of \<open>p @ [x]\<close> that ends with this last \<open>x\<close>.
\<close>

definition longest_ending :: "int list \<Rightarrow> int \<Rightarrow> nat \<Rightarrow> bool" where
  "longest_ending p x d \<longleftrightarrow>
     (\<exists>ys. subseq ys p \<and> sorted_wrt (<) (ys @ [x]) \<and> Suc (length ys) = d)
     \<and> (\<forall>ys. subseq ys p \<and> sorted_wrt (<) (ys @ [x]) \<longrightarrow> Suc (length ys) \<le> d)"

text \<open>
  For the vector \<open>tails\<close> of the other version, after the prefix \<open>p\<close> of the input: it is
  strictly increasing, its entry \<open>k\<close> is the last element of some increasing subsequence of
  \<open>k + 1\<close> elements, and no increasing subsequence of that length ends in a smaller one.
\<close>

definition tails_inv :: "int list \<Rightarrow> int list \<Rightarrow> bool" where
  "tails_inv p tails \<longleftrightarrow>
     sorted_wrt (<) tails
     \<and> (\<forall>k. k < length tails \<longrightarrow>
           (\<exists>ys. increasing_subseq ys p \<and> length ys = Suc k \<and> last ys = tails ! k))
     \<and> (\<forall>ys. increasing_subseq ys p \<and> ys \<noteq> [] \<longrightarrow>
           length ys \<le> length tails \<and> tails ! (length ys - 1) \<le> last ys)"

section \<open>Helper lemmas: machine integers\<close>

lemma i32_id: "- 2147483648 \<le> x \<Longrightarrow> x \<le> 2147483647 \<Longrightarrow> i32 x = x"
  by (simp add: i32_def)

lemma i64_id:
  "- 9223372036854775808 \<le> x \<Longrightarrow> x \<le> 9223372036854775807 \<Longrightarrow> i64 x = x"
  by (simp add: i64_def)

section \<open>Helper lemmas: find\_index\<close>

lemma find_index_loop_None:
  "find_index_loop v target i = None \<longleftrightarrow> (\<forall>j. i \<le> j \<and> j < length v \<longrightarrow> v ! j \<noteq> target)"
proof (induction v target i rule: find_index_loop.induct)
  case (1 v target i)
  show ?case
  proof (cases "i < length v")
    case False
    then show ?thesis by (subst find_index_loop.simps) auto
  next
    case True
    show ?thesis
    proof (cases "v ! i = target")
      case hit: True
      with True show ?thesis by (subst find_index_loop.simps) auto
    next
      case miss: False
      have "find_index_loop v target i = find_index_loop v target (i + 1)"
        using True miss by (subst find_index_loop.simps) simp
      also have "\<dots> = None \<longleftrightarrow> (\<forall>j. i + 1 \<le> j \<and> j < length v \<longrightarrow> v ! j \<noteq> target)"
        using "1.IH" True miss by simp
      also have "\<dots> \<longleftrightarrow> (\<forall>j. i \<le> j \<and> j < length v \<longrightarrow> v ! j \<noteq> target)"
      proof -
        have "i \<le> j \<longleftrightarrow> j = i \<or> i + 1 \<le> j" for j by arith
        then show ?thesis using miss by auto
      qed
      finally show ?thesis .
    qed
  qed
qed

lemma find_index_loop_first:
  "i \<le> k \<Longrightarrow> k < length v \<Longrightarrow> v ! k = target \<Longrightarrow> (\<forall>j. i \<le> j \<and> j < k \<longrightarrow> v ! j \<noteq> target)
   \<Longrightarrow> find_index_loop v target i = Some (i32 (int k))"
proof (induction v target i rule: find_index_loop.induct)
  case (1 v target i)
  show ?case
  proof (cases "i = k")
    case True
    with 1 show ?thesis by (subst find_index_loop.simps) simp
  next
    case False
    with 1 have lt: "i < k" and miss: "v ! i \<noteq> target" by auto
    have "find_index_loop v target i = find_index_loop v target (i + 1)"
      using lt "1.prems" miss by (subst find_index_loop.simps) simp
    also have "\<dots> = Some (i32 (int k))"
      using "1.IH" lt "1.prems" miss by auto
    finally show ?thesis .
  qed
qed

lemma find_index_first:
  "k < length v \<Longrightarrow> v ! k = target \<Longrightarrow> (\<forall>j. j < k \<longrightarrow> v ! j \<noteq> target)
   \<Longrightarrow> find_index v target = Some (i32 (int k))"
  unfolding find_index_def by (rule find_index_loop_first) auto

lemma first_occurrence:
  assumes "target \<in> set v"
  shows "\<exists>k. k < length v \<and> v ! k = target \<and> (\<forall>j. j < k \<longrightarrow> v ! j \<noteq> target)"
proof -
  let ?P = "\<lambda>k. k < length v \<and> v ! k = target"
  from assms obtain k0 where "?P k0" by (auto simp: in_set_conv_nth)
  then have "?P (LEAST k. ?P k)" by (rule LeastI)
  moreover have "\<forall>j. j < (LEAST k. ?P k) \<longrightarrow> v ! j \<noteq> target"
    using not_less_Least[of _ ?P] \<open>?P (LEAST k. ?P k)\<close> by (metis order.strict_trans)
  ultimately show ?thesis by blast
qed

section \<open>Helper lemmas: factorials\<close>

lemma fact_int_mono: "(fact k :: int) \<le> fact (Suc k)"
proof -
  have "(fact k :: nat) \<le> fact (Suc k)" by (rule fact_mono) simp
  then have "int (fact k) \<le> int (fact (Suc k))" by (simp only: of_nat_le_iff)
  then show ?thesis by (simp only: of_nat_fact)
qed

lemma fact_int_pos: "(0 :: int) < fact k"
  by simp

lemma factorial_basic_demo_nat:
  "(fact k :: int) \<le> 2147483647 \<Longrightarrow> factorial_basic_demo (int k) = fact k"
proof (induction k)
  case 0
  show ?case by (subst factorial_basic_demo.simps) simp
next
  case (Suc k)
  show ?case
  proof (cases "k = 0")
    case True
    then show ?thesis by (subst factorial_basic_demo.simps) simp
  next
    case False
    have le: "(fact k :: int) \<le> 2147483647"
      using fact_int_mono [of k] Suc.prems by linarith
    have ih: "factorial_basic_demo (int k) = fact k" by (rule Suc.IH [OF le])
    have eq: "int (Suc k) * fact k = (fact (Suc k) :: int)" by simp
    have "factorial_basic_demo (int (Suc k)) = i32 (int (Suc k) * factorial_basic_demo (int k))"
      using False by (subst factorial_basic_demo.simps) simp
    also have "\<dots> = i32 (fact (Suc k))" by (simp only: ih eq)
    also have "\<dots> = fact (Suc k)"
      using Suc.prems fact_int_pos [of "Suc k"] by (intro i32_id) linarith+
    finally show ?thesis .
  qed
qed

lemma factorial_recursion_demo_nat:
  "(fact k :: int) \<le> 9223372036854775807 \<Longrightarrow> factorial_recursion_demo (int k) = fact k"
proof (induction k)
  case 0
  show ?case by (subst factorial_recursion_demo.simps) simp
next
  case (Suc k)
  show ?case
  proof (cases "k = 0")
    case True
    then show ?thesis by (subst factorial_recursion_demo.simps) simp
  next
    case False
    have le: "(fact k :: int) \<le> 9223372036854775807"
      using fact_int_mono [of k] Suc.prems by linarith
    have ih: "factorial_recursion_demo (int k) = fact k" by (rule Suc.IH [OF le])
    have eq: "int (Suc k) * fact k = (fact (Suc k) :: int)" by simp
    have "factorial_recursion_demo (int (Suc k))
          = i64 (int (Suc k) * factorial_recursion_demo (int k))"
      using False by (subst factorial_recursion_demo.simps) simp
    also have "\<dots> = i64 (fact (Suc k))" by (simp only: ih eq)
    also have "\<dots> = fact (Suc k)"
      using Suc.prems fact_int_pos [of "Suc k"] by (intro i64_id) linarith+
    finally show ?thesis .
  qed
qed

lemma factorial_normal_eq: "factorial_normal n = factorial_recursion_demo n"
proof (induction n rule: factorial_normal.induct)
  case (1 n)
  show ?case
  proof (cases "n \<le> 1")
    case True
    then show ?thesis
      by (subst factorial_normal.simps, subst factorial_recursion_demo.simps) simp
  next
    case False
    then show ?thesis
      using "1.IH" by (subst factorial_normal.simps, subst factorial_recursion_demo.simps) simp
  qed
qed

lemma factorial_loop_fact:
  "2 \<le> i \<Longrightarrow> i \<le> n + 1 \<Longrightarrow> result = fact (nat (i - 1)) \<Longrightarrow> (fact (nat n) :: int) \<le> 2147483647
   \<Longrightarrow> factorial_loop n result i = fact (nat n)"
proof (induction n result i rule: factorial_loop.induct)
  case (1 n result i)
  show ?case
  proof (cases "i \<le> n")
    case False
    with "1.prems" have "i - 1 = n" by simp
    with False "1.prems" show ?thesis by (subst factorial_loop.simps) simp
  next
    case True
    have nat_i: "nat i = Suc (nat (i - 1))" using "1.prems" by simp
    have prod: "result * i = fact (nat i)"
      using "1.prems" by (simp add: nat_i mult.commute)
    have "(fact (nat i) :: nat) \<le> fact (nat n)"
      using True by (intro fact_mono) simp
    then have "int (fact (nat i)) \<le> int (fact (nat n))" by (simp only: of_nat_le_iff)
    then have bound: "(fact (nat i) :: int) \<le> 2147483647"
      using "1.prems" by (simp only: of_nat_fact)
    have wrap: "i32 (result * i) = fact (nat i)"
      unfolding prod using bound fact_int_pos [of "nat i"] by (intro i32_id) linarith+
    have "factorial_loop n result i = factorial_loop n (i32 (result * i)) (i + 1)"
      using True by (subst factorial_loop.simps) simp
    also have "\<dots> = fact (nat n)"
      using True "1.prems" wrap by (intro "1.IH") auto
    finally show ?thesis .
  qed
qed

lemma factorial_constexpr_demo_fact:
  assumes "0 \<le> n" and "(fact (nat n) :: int) \<le> 2147483647"
  shows "factorial_constexpr_demo n = fact (nat n)"
proof (cases "2 \<le> n")
  case True
  then show ?thesis
    unfolding factorial_constexpr_demo_def using assms by (intro factorial_loop_fact) auto
next
  case False
  with assms have "n = 0 \<or> n = 1" by auto
  then show ?thesis
    unfolding factorial_constexpr_demo_def by (subst factorial_loop.simps) auto
qed

lemma factorial_tail_fact:
  "0 \<le> n \<Longrightarrow> 0 < acc \<Longrightarrow> acc * fact (nat n) \<le> 9223372036854775807
   \<Longrightarrow> factorial_tail n acc = acc * fact (nat n)"
proof (induction n acc rule: factorial_tail.induct)
  case (1 n acc)
  show ?case
  proof (cases "n \<le> 1")
    case True
    with "1.prems" have "n = 0 \<or> n = 1" by auto
    then show ?thesis by (subst factorial_tail.simps) auto
  next
    case False
    have nat_n: "nat n = Suc (nat (n - 1))" using False by simp
    have split: "acc * fact (nat n) = (n * acc) * fact (nat (n - 1))"
      using False by (simp add: nat_n mult.commute mult.left_commute)
    have "1 \<le> (fact (nat (n - 1)) :: int)" using fact_int_pos [of "nat (n - 1)"] by linarith
    then have "n * acc * 1 \<le> n * acc * fact (nat (n - 1))"
      using False "1.prems" by (intro mult_left_mono) auto
    then have bound: "n * acc \<le> 9223372036854775807"
      using "1.prems" split by simp
    have pos: "0 < n * acc" using False "1.prems" by simp
    have wrap: "i64 (n * acc) = n * acc" using bound pos by (intro i64_id) linarith+
    have "factorial_tail n acc = factorial_tail (n - 1) (i64 (n * acc))"
      using False by (subst factorial_tail.simps) simp
    also have "\<dots> = (n * acc) * fact (nat (n - 1))"
      unfolding wrap using False pos "1.prems" split by (intro "1.IH" [unfolded wrap]) auto
    finally show ?thesis by (simp only: split)
  qed
qed

section \<open>Helper lemmas: Fibonacci numbers\<close>

lemma fib_number_Suc_le: "fib_number n \<le> fib_number (Suc n)"
  by (cases n rule: fib_number.cases) simp_all

lemma fib_number_mono: "i \<le> j \<Longrightarrow> fib_number i \<le> fib_number j"
  by (rule lift_Suc_mono_le [of fib_number]) (simp_all add: fib_number_Suc_le)

lemma fib_number_step: "2 \<le> k \<Longrightarrow> fib_number k = fib_number (k - 1) + fib_number (k - 2)"
proof -
  assume "2 \<le> k"
  then obtain m where "k = Suc (Suc m)" by (metis add_2_eq_Suc le_Suc_ex)
  then show ?thesis by simp
qed

lemma fib_number_int_step:
  assumes "2 \<le> n"
  shows "int (fib_number (nat n)) = int (fib_number (nat (n - 1))) + int (fib_number (nat (n - 2)))"
proof -
  have "2 \<le> nat n" using assms by simp
  moreover have "nat n - 1 = nat (n - 1)" "nat n - 2 = nat (n - 2)" using assms by simp_all
  ultimately show ?thesis using fib_number_step [of "nat n"] by simp
qed

lemma fib_number_int_bound:
  assumes "i \<le> n" and "int (fib_number (nat n)) \<le> B"
  shows "int (fib_number (nat i)) \<le> B"
proof -
  have "fib_number (nat i) \<le> fib_number (nat n)"
    using assms(1) by (intro fib_number_mono) simp
  then show ?thesis using assms(2) by linarith
qed

lemma i64_fib:
  assumes "int (fib_number k) \<le> 9223372036854775807"
  shows "i64 (int (fib_number k)) = int (fib_number k)"
  using assms by (intro i64_id) linarith+

lemma i32_fib:
  assumes "int (fib_number k) \<le> 2147483647"
  shows "i32 (int (fib_number k)) = int (fib_number k)"
  using assms by (intro i32_id) linarith+

lemma fib_naive_fib:
  "0 \<le> n \<Longrightarrow> int (fib_number (nat n)) \<le> 9223372036854775807
   \<Longrightarrow> fib_naive n = int (fib_number (nat n))"
proof (induction n rule: fib_naive.induct)
  case (1 n)
  show ?case
  proof (cases "n \<le> 1")
    case True
    with "1.prems" have "n = 0 \<or> n = 1" by auto
    then show ?thesis by (subst fib_naive.simps) auto
  next
    case False
    then have two: "2 \<le> n" by simp
    have b1: "int (fib_number (nat (n - 1))) \<le> 9223372036854775807"
      using "1.prems"(2) by (intro fib_number_int_bound [of "n - 1" n]) simp_all
    have b2: "int (fib_number (nat (n - 2))) \<le> 9223372036854775807"
      using "1.prems"(2) by (intro fib_number_int_bound [of "n - 2" n]) simp_all
    have ih1: "fib_naive (n - 1) = int (fib_number (nat (n - 1)))"
      using False two b1 by (intro "1.IH"(1)) simp_all
    have ih2: "fib_naive (n - 2) = int (fib_number (nat (n - 2)))"
      using False two b2 by (intro "1.IH"(2)) simp_all
    have "fib_naive n = i64 (fib_naive (n - 1) + fib_naive (n - 2))"
      using False by (subst fib_naive.simps) simp
    also have "\<dots> = i64 (int (fib_number (nat n)))"
      by (simp only: ih1 ih2 fib_number_int_step [OF two])
    also have "\<dots> = int (fib_number (nat n))"
      using "1.prems"(2) by (rule i64_fib)
    finally show ?thesis .
  qed
qed

lemma fib_tail_fib:
  "int k \<le> 2147483647 \<Longrightarrow> int (fib_number (j + k)) \<le> 9223372036854775807
   \<Longrightarrow> fib_tail (int k) (int (fib_number j)) (int (fib_number (Suc j)))
       = Some (int (fib_number (j + k)))"
proof (induction k arbitrary: j)
  case 0
  show ?case by (subst fib_tail.simps) simp
next
  case (Suc k)
  show ?case
  proof (cases "k = 0")
    case True
    then show ?thesis by (subst fib_tail.simps) simp
  next
    case False
    have dec: "i32 (int (Suc k) - 1) = int k"
      using Suc.prems(1) by (intro trans [OF i32_id]) linarith+
    have "fib_number (Suc (Suc j)) \<le> fib_number (j + Suc k)"
      using False by (intro fib_number_mono) simp
    then have b: "int (fib_number (Suc (Suc j))) \<le> 9223372036854775807"
      using Suc.prems(2) by linarith
    have sum: "i64 (int (fib_number j) + int (fib_number (Suc j))) = int (fib_number (Suc (Suc j)))"
      using i64_fib [OF b] by (simp add: add.commute)
    have "fib_tail (int (Suc k)) (int (fib_number j)) (int (fib_number (Suc j)))
          = fib_tail (int k) (int (fib_number (Suc j))) (int (fib_number (Suc (Suc j))))"
      using False by (subst fib_tail.simps) (simp only: dec sum, simp)
    also have "\<dots> = Some (int (fib_number (Suc j + k)))"
      using Suc.prems by (intro Suc.IH) simp_all
    finally show ?thesis by simp
  qed
qed

lemma fib_optimized_loop_fib:
  "2 \<le> i \<Longrightarrow> i \<le> n + 1 \<Longrightarrow> prev2 = int (fib_number (nat (i - 2)))
   \<Longrightarrow> prev1 = int (fib_number (nat (i - 1)))
   \<Longrightarrow> int (fib_number (nat n)) \<le> 9223372036854775807
   \<Longrightarrow> fib_optimized_loop n prev2 prev1 i = int (fib_number (nat n))"
proof (induction n prev2 prev1 i rule: fib_optimized_loop.induct)
  case (1 n prev2 prev1 i)
  show ?case
  proof (cases "i \<le> n")
    case False
    with "1.prems" have "i - 1 = n" by simp
    with False "1.prems" show ?thesis by (subst fib_optimized_loop.simps) simp
  next
    case True
    have b: "int (fib_number (nat i)) \<le> 9223372036854775807"
      using True "1.prems"(5) by (rule fib_number_int_bound)
    have sum: "i64 (prev1 + prev2) = int (fib_number (nat i))"
      using i64_fib [OF b] fib_number_int_step [of i] "1.prems" by simp
    have "fib_optimized_loop n prev2 prev1 i
          = fib_optimized_loop n prev1 (i64 (prev1 + prev2)) (i + 1)"
      using True by (subst fib_optimized_loop.simps) simp
    also have "\<dots> = int (fib_number (nat n))"
      using True "1.prems" sum by (intro "1.IH") simp_all
    finally show ?thesis .
  qed
qed

lemma fibonacci_loop_fib:
  "2 \<le> i \<Longrightarrow> i \<le> n + 1 \<Longrightarrow> a = int (fib_number (nat (i - 2)))
   \<Longrightarrow> b = int (fib_number (nat (i - 1)))
   \<Longrightarrow> int (fib_number (nat n)) \<le> 2147483647
   \<Longrightarrow> fibonacci_loop n a b i = int (fib_number (nat n))"
proof (induction n a b i rule: fibonacci_loop.induct)
  case (1 n a b i)
  show ?case
  proof (cases "i \<le> n")
    case False
    with "1.prems" have "i - 1 = n" by simp
    with False "1.prems" show ?thesis by (subst fibonacci_loop.simps) simp
  next
    case True
    have bd: "int (fib_number (nat i)) \<le> 2147483647"
      using True "1.prems"(5) by (rule fib_number_int_bound)
    have sum: "i32 (a + b) = int (fib_number (nat i))"
      using i32_fib [OF bd] fib_number_int_step [of i] "1.prems" by (simp add: add.commute)
    have "fibonacci_loop n a b i = fibonacci_loop n b (i32 (a + b)) (i + 1)"
      using True by (subst fibonacci_loop.simps) simp
    also have "\<dots> = int (fib_number (nat n))"
      using True "1.prems" sum by (intro "1.IH") simp_all
    finally show ?thesis .
  qed
qed

lemma fib_dp_loop_fib:
  "2 \<le> i \<Longrightarrow> i \<le> n + 1 \<Longrightarrow> length dp = nat (n + 1)
   \<Longrightarrow> (\<forall>k. k < nat i \<longrightarrow> dp ! k = int (fib_number k))
   \<Longrightarrow> int (fib_number (nat n)) \<le> 9223372036854775807
   \<Longrightarrow> fib_dp_loop n dp i ! nat n = int (fib_number (nat n))"
proof (induction n dp i rule: fib_dp_loop.induct)
  case (1 n dp i)
  show ?case
  proof (cases "i \<le> n")
    case False
    with "1.prems" have "i - 1 = n" by simp
    then have "nat n < nat i" using "1.prems" by simp
    with False "1.prems"(4) show ?thesis by (subst fib_dp_loop.simps) simp
  next
    case True
    let ?v = "i64 (dp ! nat (i - 1) + dp ! nat (i - 2))"
    have bd: "int (fib_number (nat i)) \<le> 9223372036854775807"
      using True "1.prems"(5) by (rule fib_number_int_bound)
    have r1: "dp ! nat (i - 1) = int (fib_number (nat (i - 1)))"
      using "1.prems"(1) by (intro "1.prems"(4) [rule_format]) simp
    have r2: "dp ! nat (i - 2) = int (fib_number (nat (i - 2)))"
      using "1.prems"(1) by (intro "1.prems"(4) [rule_format]) simp
    have v: "?v = int (fib_number (nat i))"
      using i64_fib [OF bd] fib_number_int_step [of i] "1.prems"(1) by (simp add: r1 r2)
    have inv: "\<forall>k. k < nat (i + 1) \<longrightarrow> dp[nat i := ?v] ! k = int (fib_number k)"
    proof (intro allI impI)
      fix k assume "k < nat (i + 1)"
      then have "k < nat i \<or> k = nat i" using "1.prems"(1) by auto
      then show "dp[nat i := ?v] ! k = int (fib_number k)"
      proof
        assume "k < nat i"
        then show ?thesis using "1.prems"(4) by simp
      next
        assume "k = nat i"
        moreover have "nat i < length dp" using True "1.prems" by simp
        ultimately show ?thesis using v by simp
      qed
    qed
    have "fib_dp_loop n dp i = fib_dp_loop n (dp[nat i := ?v]) (i + 1)"
      using True by (subst fib_dp_loop.simps) simp
    moreover have "fib_dp_loop n (dp[nat i := ?v]) (i + 1) ! nat n = int (fib_number (nat n))"
      using True "1.prems" inv by (intro "1.IH") simp_all
    ultimately show ?thesis by simp
  qed
qed

lemma fib_dp_fib:
  assumes "0 \<le> n" and "n < 2147483647" and "int (fib_number (nat n)) \<le> 9223372036854775807"
  shows "fib_dp n = Inr (int (fib_number (nat n)))"
proof (cases "n \<le> 1")
  case True
  with assms have "n = 0 \<or> n = 1" by auto
  then show ?thesis by (auto simp: fib_dp_def)
next
  case False
  have sz: "i32 (n + 1) = n + 1" using assms by (intro i32_id) linarith+
  let ?dp = "(replicate (nat (n + 1)) (0::int))[0 := 0, 1 := 1]"
  have init: "\<forall>k. k < nat 2 \<longrightarrow> ?dp ! k = int (fib_number k)"
  proof (intro allI impI)
    fix k :: nat assume "k < nat 2"
    then have "k = 0 \<or> k = 1" by auto
    then show "?dp ! k = int (fib_number k)" using False by auto
  qed
  have "fib_dp_loop n ?dp 2 ! nat n = int (fib_number (nat n))"
    using False assms(3) init by (intro fib_dp_loop_fib) simp_all
  then show ?thesis using False assms by (simp add: fib_dp_def sz)
qed

lemma fib_memoized_fib:
  "0 \<le> n \<Longrightarrow> n \<le> N \<Longrightarrow> int (fib_number (nat n)) \<le> 9223372036854775807 \<Longrightarrow> fib_map_ok N memo
   \<Longrightarrow> fst (fib_memoized n memo) = int (fib_number (nat n))
       \<and> fib_map_ok N (snd (fib_memoized n memo))"
proof (induction n memo rule: fib_memoized.induct)
  case (1 n memo)
  show ?case
  proof (cases "n \<le> 1")
    case True
    with "1.prems" have "n = 0 \<or> n = 1" by auto
    then show ?thesis using "1.prems"(4) by (subst (1 2) fib_memoized.simps) auto
  next
    case False
    then have two: "2 \<le> n" by simp
    show ?thesis
    proof (cases "memo n")
      case (Some v)
      have "n \<in> {2..N}" using two "1.prems"(2) by simp
      then have "v = int (fib_number (nat n))"
        using "1.prems"(4) Some unfolding fib_map_ok_def by fastforce
      then show ?thesis
        using False Some "1.prems"(4) by (subst (1 2) fib_memoized.simps) simp
    next
      case None
      obtain a memo1 where r1: "fib_memoized (n - 1) memo = (a, memo1)"
        by (cases "fib_memoized (n - 1) memo")
      obtain b memo2 where r2: "fib_memoized (n - 2) memo1 = (b, memo2)"
        by (cases "fib_memoized (n - 2) memo1")
      have b1: "int (fib_number (nat (n - 1))) \<le> 9223372036854775807"
        using "1.prems"(3) by (intro fib_number_int_bound [of "n - 1" n]) simp_all
      have b2: "int (fib_number (nat (n - 2))) \<le> 9223372036854775807"
        using "1.prems"(3) by (intro fib_number_int_bound [of "n - 2" n]) simp_all
      have ih1: "fst (fib_memoized (n - 1) memo) = int (fib_number (nat (n - 1)))
                 \<and> fib_map_ok N (snd (fib_memoized (n - 1) memo))"
        using False None two b1 "1.prems"(2,4) by (intro "1.IH"(1)) simp_all
      then have a: "a = int (fib_number (nat (n - 1)))" and ok1: "fib_map_ok N memo1"
        by (simp_all add: r1)
      have ih2: "fst (fib_memoized (n - 2) memo1) = int (fib_number (nat (n - 2)))
                 \<and> fib_map_ok N (snd (fib_memoized (n - 2) memo1))"
        using False None two b2 ok1 r1 [symmetric] "1.prems"(2) by (intro "1.IH"(2)) simp_all
      then have b: "b = int (fib_number (nat (n - 2)))" and ok2: "fib_map_ok N memo2"
        by (simp_all add: r2)
      have sum: "i64 (a + b) = int (fib_number (nat n))"
        using i64_fib [OF "1.prems"(3)] by (simp only: a b fib_number_int_step [OF two])
      have unfold: "fib_memoized n memo = (i64 (a + b), memo2(n \<mapsto> i64 (a + b)))"
        using False None by (subst fib_memoized.simps) (simp add: r1 r2)
      have "fib_map_ok N (memo2(n \<mapsto> int (fib_number (nat n))))"
        using ok2 unfolding fib_map_ok_def by auto
      then show ?thesis by (simp only: unfold sum fst_conv snd_conv simp_thms)
    qed
  qed
qed

lemma fib_memo_vec_fib:
  "0 \<le> n \<Longrightarrow> n \<le> N \<Longrightarrow> int (fib_number (nat n)) \<le> 9223372036854775807
   \<Longrightarrow> fib_table_ok N memo
   \<Longrightarrow> \<exists>memo'. fib_memo_vec n memo = Some (int (fib_number (nat n)), memo')
          \<and> fib_table_ok N memo' \<and> length memo' = length memo"
proof (induction n memo rule: fib_memo_vec.induct)
  case (1 n memo)
  show ?case
  proof (cases "n \<le> 1")
    case True
    with "1.prems" have "n = 0 \<or> n = 1" by auto
    then show ?thesis using "1.prems"(4) by (subst fib_memo_vec.simps) auto
  next
    case False
    then have two: "2 \<le> n" by simp
    have range: "nat n \<in> {2..nat N}"
      using two "1.prems"(2) unfolding atLeastAtMost_iff by arith
    have entry: "nat n < length memo \<and> (memo ! nat n = - 1 \<or> memo ! nat n = int (fib_number (nat n)))"
      using "1.prems"(4) range unfolding fib_table_ok_def by blast
    have len: "\<not> length memo \<le> nat n" using entry by simp
    show ?thesis
    proof (cases "memo ! nat n = - 1")
      case hit: False
      have "memo ! nat n = int (fib_number (nat n))"
        using entry hit by blast
      then show ?thesis
        using False len hit "1.prems"(4) by (subst fib_memo_vec.simps) simp
    next
      case miss: True
      have b1: "int (fib_number (nat (n - 1))) \<le> 9223372036854775807"
        using "1.prems"(3) by (intro fib_number_int_bound [of "n - 1" n]) simp_all
      have b2: "int (fib_number (nat (n - 2))) \<le> 9223372036854775807"
        using "1.prems"(3) by (intro fib_number_int_bound [of "n - 2" n]) simp_all
      have "\<exists>memo'. fib_memo_vec (n - 1) memo = Some (int (fib_number (nat (n - 1))), memo')
              \<and> fib_table_ok N memo' \<and> length memo' = length memo"
        using False len miss two b1 "1.prems"(2,4) by (intro "1.IH"(1)) simp_all
      then obtain memo1 where
        r1: "fib_memo_vec (n - 1) memo = Some (int (fib_number (nat (n - 1))), memo1)"
        and ok1: "fib_table_ok N memo1" and len1: "length memo1 = length memo"
        by blast
      have "\<exists>memo'. fib_memo_vec (n - 2) memo1 = Some (int (fib_number (nat (n - 2))), memo')
              \<and> fib_table_ok N memo' \<and> length memo' = length memo1"
        using False len miss two b2 ok1 len1 "1.prems"(2) r1
        by (intro "1.IH"(2) [of "(int (fib_number (nat (n - 1))), memo1)"]) simp_all
      then obtain memo2 where
        r2: "fib_memo_vec (n - 2) memo1 = Some (int (fib_number (nat (n - 2))), memo2)"
        and ok2: "fib_table_ok N memo2" and len2: "length memo2 = length memo1"
        by blast
      have sum: "i64 (int (fib_number (nat (n - 1))) + int (fib_number (nat (n - 2))))
                 = int (fib_number (nat n))"
        using i64_fib [OF "1.prems"(3)] by (simp only: fib_number_int_step [OF two])
      have len2': "\<not> length memo2 \<le> nat n" using len len1 len2 by simp
      have unfold: "fib_memo_vec n memo
            = Some (int (fib_number (nat n)), memo2[nat n := int (fib_number (nat n))])"
        using False len miss len2' by (subst fib_memo_vec.simps) (simp add: r1 r2 sum)
      have "fib_table_ok N (memo2[nat n := int (fib_number (nat n))])"
        unfolding fib_table_ok_def
      proof (intro ballI)
        fix k assume k: "k \<in> {2..nat N}"
        then have old: "k < length memo2 \<and> (memo2 ! k = - 1 \<or> memo2 ! k = int (fib_number k))"
          using ok2 unfolding fib_table_ok_def by blast
        show "k < length (memo2[nat n := int (fib_number (nat n))])
              \<and> (memo2[nat n := int (fib_number (nat n))] ! k = - 1
                 \<or> memo2[nat n := int (fib_number (nat n))] ! k = int (fib_number k))"
        proof (cases "k = nat n")
          case True
          then show ?thesis using old by simp
        next
          case False
          then show ?thesis using old by simp
        qed
      qed
      then show ?thesis using unfold len1 len2 by simp
    qed
  qed
qed

lemma fib_memo_eq: "fib_memo n memo = fib_memo_vec n memo"
proof (induction n memo rule: fib_memo.induct)
  case (1 n memo)
  show ?case
  proof (cases "n \<le> 1 \<or> length memo \<le> nat n \<or> memo ! nat n \<noteq> - 1")
    case True
    then show ?thesis by (subst fib_memo.simps, subst fib_memo_vec.simps) auto
  next
    case False
    then have c: "\<not> n \<le> 1" "\<not> length memo \<le> nat n" "\<not> memo ! nat n \<noteq> - 1" by auto
    have ih1: "fib_memo (n - 1) memo = fib_memo_vec (n - 1) memo"
      using c by (rule "1.IH"(1))
    show ?thesis
    proof (cases "fib_memo_vec (n - 1) memo")
      case None
      then show ?thesis
        using c ih1 by (subst fib_memo.simps, subst fib_memo_vec.simps) simp
    next
      case (Some r)
      obtain a memo1 where r: "r = (a, memo1)" by (cases r)
      have ih2: "fib_memo (n - 2) memo1 = fib_memo_vec (n - 2) memo1"
        using Some ih1 r by (intro "1.IH"(2) [OF c, of r a memo1]) simp_all
      show ?thesis
        using c ih1 ih2 Some r by (subst fib_memo.simps, subst fib_memo_vec.simps) simp
    qed
  qed
qed

lemma fib_table_ok_fresh: "nat n < m \<Longrightarrow> fib_table_ok n (replicate m (- 1))"
  by (simp add: fib_table_ok_def)

lemma fib_map_ok_empty: "fib_map_ok n Map.empty"
  by (simp add: fib_map_ok_def)

lemma fib_number_double: "2 * fib_number (Suc k) \<le> fib_number (Suc (Suc (Suc k)))"
  using fib_number_Suc_le [of "Suc k"] by simp

lemma fib_number_exp: "2 ^ m \<le> fib_number (Suc (2 * m))"
proof (induction m)
  case 0
  show ?case by simp
next
  case (Suc m)
  have "2 ^ Suc m = 2 * 2 ^ m" by simp
  also have "\<dots> \<le> 2 * fib_number (Suc (2 * m))" using Suc.IH by simp
  also have "\<dots> \<le> fib_number (Suc (Suc (Suc (2 * m))))" by (rule fib_number_double)
  finally show ?case by simp
qed

lemma fib_number_fits_small:
  assumes "0 \<le> n" and "int (fib_number (nat n)) \<le> 9223372036854775807"
  shows "n \<le> 128"
proof (rule ccontr)
  assume "\<not> n \<le> 128"
  then have "Suc (2 * 64) \<le> nat n" by simp
  then have "fib_number (Suc (2 * 64)) \<le> fib_number (nat n)" by (rule fib_number_mono)
  moreover have "(2::nat) ^ 64 \<le> fib_number (Suc (2 * 64))" by (rule fib_number_exp)
  ultimately have "(2::nat) ^ 64 \<le> fib_number (nat n)" by (rule order_trans [rotated])
  then have "int ((2::nat) ^ 64) \<le> int (fib_number (nat n))" by (simp only: of_nat_le_iff)
  with assms(2) show False by simp
qed

lemma fib_number_10: "fib_number 10 = 55"
  by (simp add: eval_nat_numeral)

lemma fib_values_10:
  "fib_dp 10 = Inr 55 \<and> fibonacci 10 = 55 \<and> fib_tail 10 0 1 = Some 55"
proof -
  have "fib_dp 10 = Inr 55" by (simp add: fib_dp_def fib_dp_loop.simps i32_def i64_def)
  moreover have "fibonacci 10 = 55" by (simp add: fibonacci_def fibonacci_loop.simps i32_def)
  moreover have "fib_tail 10 0 1 = Some 55" by (simp add: fib_tail.simps i32_def i64_def)
  ultimately show ?thesis by (intro conjI)
qed

lemma create_fibonacci_table_value:
  "create_fibonacci_table = [0, 1, 1, 2, 3, 5, 8, 13, 21, 34]"
proof -
  have "replicate 10 (0::int) = [0, 0, 0, 0, 0, 0, 0, 0, 0, 0]" by (simp add: eval_nat_numeral)
  then show ?thesis
    by (simp add: create_fibonacci_table_def fibonacci_table_loop.simps i32_def)
qed

section \<open>Helper lemmas: the Tower of Hanoi\<close>







section \<open>Helper lemmas: the file of the RAII demo\<close>



lemma resolve_not_symlink: "resolve k w x = Some p \<Longrightarrow> entries w p \<noteq> Some (symlink t)"
  by (induction k arbitrary: x) (auto split: option.splits entry.splits)

lemma resolve_entries: "entries w' = entries w \<Longrightarrow> resolve k w' x = resolve k w x"
  by (induction k arbitrary: x) (simp_all split: option.splits entry.splits)



lemma realpath_not_symlink: "realpath w x = Some p \<Longrightarrow> entries w p \<noteq> Some (symlink t)"
  unfolding realpath_def by (rule resolve_not_symlink)

lemma realpath_entries: "entries w' = entries w \<Longrightarrow> realpath w' x = realpath w x"
  unfolding realpath_def by (rule resolve_entries)












section \<open>Helper lemmas: unique paths\<close>

lemma i32_add: "i32 (i32 a + i32 b) = i32 (a + b)"
proof -
  have "(((a + 2147483648) mod 4294967296 - 2147483648)
        + ((b + 2147483648) mod 4294967296 - 2147483648) + 2147483648) mod 4294967296
      = (((a + 2147483648) mod 4294967296 + (b + 2147483648) mod 4294967296) - 2147483648)
          mod 4294967296"
    by (simp add: algebra_simps)
  also have "\<dots> = (((a + 2147483648) + (b + 2147483648)) - 2147483648) mod 4294967296"
    by (simp only: mod_diff_left_eq [symmetric,
          of "(a + 2147483648) mod 4294967296 + (b + 2147483648) mod 4294967296"] mod_add_eq)
       (simp only: mod_diff_left_eq)
  also have "\<dots> = (a + b + 2147483648) mod 4294967296"
    by (simp add: algebra_simps)
  finally show ?thesis by (simp add: i32_def)
qed

lemma unique_paths_row_length: "length (unique_paths_row n dp j) = length dp"
proof (induction n dp j rule: unique_paths_row.induct)
  case (1 n dp j)
  show ?case
  proof (cases "j < n")
    case True
    then show ?thesis using "1.IH" by (subst unique_paths_row.simps) simp
  next
    case False
    then show ?thesis by (subst unique_paths_row.simps) simp
  qed
qed

lemma unique_paths_row_binomial:
  "1 \<le> j \<Longrightarrow> j \<le> n \<Longrightarrow> length dp = nat n
   \<Longrightarrow> (\<forall>k. k < nat j \<longrightarrow> dp ! k = i32 (int ((Suc r + k) choose k)))
   \<Longrightarrow> (\<forall>k. nat j \<le> k \<and> k < nat n \<longrightarrow> dp ! k = i32 (int ((r + k) choose k)))
   \<Longrightarrow> \<forall>k. k < nat n \<longrightarrow> unique_paths_row n dp j ! k = i32 (int ((Suc r + k) choose k))"
proof (induction n dp j rule: unique_paths_row.induct)
  case (1 n dp j)
  show ?case
  proof (cases "j < n")
    case False
    with "1.prems" have "j = n" by simp
    with False "1.prems"(4) show ?thesis by (subst unique_paths_row.simps) simp
  next
    case True
    obtain j' where j': "nat j = Suc j'" using "1.prems"(1) by (cases "nat j") auto
    then have pred: "nat (j - 1) = j'" by simp
    let ?v = "i32 (dp ! nat j + dp ! nat (j - 1))"
    have old: "dp ! nat j = i32 (int ((r + Suc j') choose Suc j'))"
      using "1.prems"(5) [rule_format, of "nat j"] True "1.prems"(1) j' by simp
    have new: "dp ! nat (j - 1) = i32 (int ((Suc r + j') choose j'))"
      using "1.prems"(4) [rule_format, of j'] j' pred by simp
    have pascal: "(Suc r + Suc j') choose Suc j'
        = ((Suc r + j') choose j') + ((r + Suc j') choose Suc j')"
      by simp
    have "?v = i32 (i32 (int ((r + Suc j') choose Suc j')) + i32 (int ((Suc r + j') choose j')))"
      by (simp only: old new)
    also have "\<dots> = i32 (int ((r + Suc j') choose Suc j') + int ((Suc r + j') choose j'))"
      by (rule i32_add)
    also have "\<dots> = i32 (int ((Suc r + Suc j') choose Suc j'))"
    proof -
      have "int ((r + Suc j') choose Suc j') + int ((Suc r + j') choose j')
            = int ((Suc r + Suc j') choose Suc j')"
        unfolding pascal by simp
      then show ?thesis by (rule arg_cong)
    qed
    finally have v: "?v = i32 (int ((Suc r + nat j) choose nat j))"
      by (simp only: j')
    have inside: "nat j < length dp" using True "1.prems" by simp
    have filled: "\<forall>k. k < nat (j + 1) \<longrightarrow> dp[nat j := ?v] ! k = i32 (int ((Suc r + k) choose k))"
    proof (intro allI impI)
      fix k assume "k < nat (j + 1)"
      then have "k < nat j \<or> k = nat j" using "1.prems"(1) by auto
      then show "dp[nat j := ?v] ! k = i32 (int ((Suc r + k) choose k))"
      proof
        assume "k < nat j"
        then show ?thesis using "1.prems"(4) by simp
      next
        assume "k = nat j"
        then show ?thesis using v inside by simp
      qed
    qed
    have pending: "\<forall>k. nat (j + 1) \<le> k \<and> k < nat n \<longrightarrow> dp[nat j := ?v] ! k = i32 (int ((r + k) choose k))"
    proof (intro allI impI)
      fix k assume k: "nat (j + 1) \<le> k \<and> k < nat n"
      then have "nat j \<le> k" "k \<noteq> nat j" using "1.prems"(1) by auto
      then show "dp[nat j := ?v] ! k = i32 (int ((r + k) choose k))"
        using "1.prems"(5) k by simp
    qed
    have "unique_paths_row n dp j = unique_paths_row n (dp[nat j := ?v]) (j + 1)"
      using True by (subst unique_paths_row.simps) simp
    moreover have "\<forall>k. k < nat n \<longrightarrow>
        unique_paths_row n (dp[nat j := ?v]) (j + 1) ! k = i32 (int ((Suc r + k) choose k))"
      using True "1.prems" filled pending by (intro "1.IH") simp_all
    ultimately show ?thesis by simp
  qed
qed

lemma unique_paths_rows_binomial:
  "1 \<le> i \<Longrightarrow> i \<le> m \<Longrightarrow> 1 \<le> n \<Longrightarrow> length dp = nat n
   \<Longrightarrow> (\<forall>k. k < nat n \<longrightarrow> dp ! k = i32 (int ((nat (i - 1) + k) choose k)))
   \<Longrightarrow> \<forall>k. k < nat n \<longrightarrow>
         unique_paths_rows m n dp i ! k = i32 (int ((nat (m - 1) + k) choose k))"
proof (induction m n dp i rule: unique_paths_rows.induct)
  case (1 m n dp i)
  show ?case
  proof (cases "i < m")
    case False
    with "1.prems" have "i = m" by simp
    with False "1.prems"(5) show ?thesis by (subst unique_paths_rows.simps) simp
  next
    case True
    have first: "\<forall>k. k < nat 1 \<longrightarrow> dp ! k = i32 (int ((Suc (nat (i - 1)) + k) choose k))"
      using "1.prems"(3,5) by (simp add: i32_def)
    have rest: "\<forall>k. nat 1 \<le> k \<and> k < nat n \<longrightarrow> dp ! k = i32 (int ((nat (i - 1) + k) choose k))"
      using "1.prems"(5) by simp
    have row: "\<forall>k. k < nat n \<longrightarrow>
        unique_paths_row n dp 1 ! k = i32 (int ((Suc (nat (i - 1)) + k) choose k))"
      using "1.prems"(3,4) first rest by (intro unique_paths_row_binomial) simp_all
    have suc: "Suc (nat (i - 1)) = nat (i + 1 - 1)" using "1.prems"(1) by simp
    have "unique_paths_rows m n dp i = unique_paths_rows m n (unique_paths_row n dp 1) (i + 1)"
      using True by (subst unique_paths_rows.simps) simp
    moreover have "\<forall>k. k < nat n \<longrightarrow>
        unique_paths_rows m n (unique_paths_row n dp 1) (i + 1) ! k
          = i32 (int ((nat (m - 1) + k) choose k))"
      using True "1.prems" row [unfolded suc]
      by (intro "1.IH") (simp_all add: unique_paths_row_length)
    ultimately show ?thesis by simp
  qed
qed

lemma unique_paths_wrapped:
  assumes "1 \<le> m" and "1 \<le> n"
  shows "unique_paths m n = Inr (i32 (int ((nat (m - 1) + nat (n - 1)) choose nat (n - 1))))"
proof -
  have init: "\<forall>k. k < nat n \<longrightarrow> replicate (nat n) (1::int) ! k = i32 (int ((nat (1 - 1) + k) choose k))"
    by (simp add: i32_def)
  have "\<forall>k. k < nat n \<longrightarrow>
      unique_paths_rows m n (replicate (nat n) 1) 1 ! k = i32 (int ((nat (m - 1) + k) choose k))"
    using assms init by (intro unique_paths_rows_binomial) simp_all
  then have "unique_paths_rows m n (replicate (nat n) 1) 1 ! nat (n - 1)
      = i32 (int ((nat (m - 1) + nat (n - 1)) choose nat (n - 1)))"
    using assms(2) by simp
  then show ?thesis using assms(2) by (simp add: unique_paths_def)
qed

lemma paths_binomial_symmetric:
  "(a + b) choose b = (b + a) choose a"
  using binomial_symmetric [of b "a + b"] by (simp add: add.commute)

lemma binomial_34_17: "(34::nat) choose 17 = 2333606220"
  using binomial_fact' [of 17 34] by (simp add: fact_numeral)

section \<open>Helper lemmas: quick sort\<close>

lemma swap_length: "length (swap arr a b) = length arr"
  by (simp add: swap_def)

lemma swap_mset: "a < length arr \<Longrightarrow> b < length arr \<Longrightarrow> mset (swap arr a b) = mset arr"
  unfolding swap_def using mset_swap [of b arr a] by simp

lemma swap_nth:
  "a < length arr \<Longrightarrow> b < length arr \<Longrightarrow>
   swap arr a b ! n = (if n = b then arr ! a else if n = a then arr ! b else arr ! n)"
  by (simp add: swap_def nth_list_update)

lemma in_bounds_nat: "in_bounds arr k \<Longrightarrow> nat k < length arr"
  unfolding in_bounds_def by linarith

lemma partition_loop_spec:
  "0 \<le> low \<Longrightarrow> low \<le> j \<Longrightarrow> j \<le> high \<Longrightarrow> high < int (length arr) \<Longrightarrow> low - 1 \<le> i \<Longrightarrow> i < j
   \<Longrightarrow> (\<forall>n. low \<le> int n \<and> int n \<le> i \<longrightarrow> arr ! n < pivot)
   \<Longrightarrow> (\<forall>n. i < int n \<and> int n < j \<longrightarrow> \<not> arr ! n < pivot)
   \<Longrightarrow> \<exists>arr' i'. partition_loop arr pivot high i j = Some (arr', i')
         \<and> length arr' = length arr \<and> mset arr' = mset arr \<and> low - 1 \<le> i' \<and> i' < high
         \<and> (\<forall>n. low \<le> int n \<and> int n \<le> i' \<longrightarrow> arr' ! n < pivot)
         \<and> (\<forall>n. i' < int n \<and> int n < high \<longrightarrow> \<not> arr' ! n < pivot)
         \<and> (\<forall>n. int n < low \<or> high \<le> int n \<longrightarrow> arr' ! n = arr ! n)"
proof (induction arr pivot high i j rule: partition_loop.induct)
  case (1 arr pivot high i j)
  show ?case
  proof (cases "j < high")
    case False
    with "1.prems" have "j = high" by simp
    with "1.prems" show ?thesis by (subst partition_loop.simps) simp
  next
    case True
    have jb: "in_bounds arr j" using True "1.prems" by (simp add: in_bounds_def)
    show ?thesis
    proof (cases "arr ! nat j < pivot")
      case False
      have keep: "\<forall>n. i < int n \<and> int n < j + 1 \<longrightarrow> \<not> arr ! n < pivot"
      proof (intro allI impI)
        fix n assume n: "i < int n \<and> int n < j + 1"
        show "\<not> arr ! n < pivot"
        proof (cases "int n = j")
          case True
          then have "n = nat j" by simp
          with False show ?thesis by simp
        next
          case False
          with n "1.prems"(8) show ?thesis by simp
        qed
      qed
      have "\<exists>arr' i'. partition_loop arr pivot high i (j + 1) = Some (arr', i')
         \<and> length arr' = length arr \<and> mset arr' = mset arr \<and> low - 1 \<le> i' \<and> i' < high
         \<and> (\<forall>n. low \<le> int n \<and> int n \<le> i' \<longrightarrow> arr' ! n < pivot)
         \<and> (\<forall>n. i' < int n \<and> int n < high \<longrightarrow> \<not> arr' ! n < pivot)
         \<and> (\<forall>n. int n < low \<or> high \<le> int n \<longrightarrow> arr' ! n = arr ! n)"
        using True jb False "1.prems" keep by (intro "1.IH"(2)) simp_all
      moreover have "partition_loop arr pivot high i j = partition_loop arr pivot high i (j + 1)"
        using True jb False by (subst partition_loop.simps) simp
      ultimately show ?thesis by simp
    next
      case small: True
      let ?a = "nat (i + 1)" and ?b = "nat j"
      let ?arr = "swap arr ?a ?b"
      have ib: "in_bounds arr (i + 1)" using True "1.prems" by (simp add: in_bounds_def)
      have a: "?a < length arr" and b: "?b < length arr"
        using ib jb by (simp_all add: in_bounds_nat)
      have i0: "0 \<le> i + 1" and j0: "0 \<le> j" using "1.prems"(1,2,5) by simp_all
      have ia: "int ?a = i + 1" and jb': "int ?b = j" using i0 j0 by simp_all
      have len: "length ?arr = length arr" by (rule swap_length)
      have left: "\<forall>n. low \<le> int n \<and> int n \<le> i + 1 \<longrightarrow> ?arr ! n < pivot"
      proof (intro allI impI)
        fix n assume n: "low \<le> int n \<and> int n \<le> i + 1"
        show "?arr ! n < pivot"
        proof (cases "n = ?a")
          case True
          then show ?thesis using small a b by (simp add: swap_nth)
        next
          case False
          then have "int n \<le> i" using n "1.prems"(1,5) by arith
          then have "n \<noteq> ?b" using "1.prems"(6) j0 by auto
          with False a b have "?arr ! n = arr ! n" by (simp add: swap_nth)
          with \<open>int n \<le> i\<close> n "1.prems"(7) show ?thesis by simp
        qed
      qed
      have right: "\<forall>n. i + 1 < int n \<and> int n < j + 1 \<longrightarrow> \<not> ?arr ! n < pivot"
      proof (intro allI impI)
        fix n assume n: "i + 1 < int n \<and> int n < j + 1"
        then have na: "n \<noteq> ?a" using i0 by auto
        show "\<not> ?arr ! n < pivot"
        proof (cases "n = ?b")
          case True
          then have "?arr ! n = arr ! ?a" using a b by (simp add: swap_nth)
          moreover have "i < int ?a \<and> int ?a < j" using n True i0 j0 by auto
          ultimately show ?thesis using "1.prems"(8) by simp
        next
          case False
          with na a b have "?arr ! n = arr ! n" by (simp add: swap_nth)
          moreover have "i < int n \<and> int n < j" using n False j0 by auto
          ultimately show ?thesis using "1.prems"(8) by simp
        qed
      qed
      have "\<exists>arr' i'. partition_loop ?arr pivot high (i + 1) (j + 1) = Some (arr', i')
         \<and> length arr' = length ?arr \<and> mset arr' = mset ?arr \<and> low - 1 \<le> i' \<and> i' < high
         \<and> (\<forall>n. low \<le> int n \<and> int n \<le> i' \<longrightarrow> arr' ! n < pivot)
         \<and> (\<forall>n. i' < int n \<and> int n < high \<longrightarrow> \<not> arr' ! n < pivot)
         \<and> (\<forall>n. int n < low \<or> high \<le> int n \<longrightarrow> arr' ! n = ?arr ! n)"
        using True jb small ib "1.prems" left right len by (intro "1.IH"(1)) simp_all
      then obtain arr' i' where r: "partition_loop ?arr pivot high (i + 1) (j + 1) = Some (arr', i')"
        and p: "length arr' = length ?arr" "mset arr' = mset ?arr" "low - 1 \<le> i'" "i' < high"
          "\<forall>n. low \<le> int n \<and> int n \<le> i' \<longrightarrow> arr' ! n < pivot"
          "\<forall>n. i' < int n \<and> int n < high \<longrightarrow> \<not> arr' ! n < pivot"
          "\<forall>n. int n < low \<or> high \<le> int n \<longrightarrow> arr' ! n = ?arr ! n"
        by blast
      have outside: "\<forall>n. int n < low \<or> high \<le> int n \<longrightarrow> arr' ! n = arr ! n"
      proof (intro allI impI)
        fix n assume n: "int n < low \<or> high \<le> int n"
        then have "int n \<noteq> i + 1" "int n \<noteq> j" using True "1.prems"(2,5,6) by arith+
        then have "n \<noteq> ?a" "n \<noteq> ?b" using ia jb' by auto
        then have "?arr ! n = arr ! n" using a b by (simp add: swap_nth)
        moreover have "arr' ! n = ?arr ! n" using p(7) n by blast
        ultimately show "arr' ! n = arr ! n" by simp
      qed
      have "partition_loop arr pivot high i j = Some (arr', i')"
        using True jb small ib r by (subst partition_loop.simps) simp
      then show ?thesis
        using p(1-6) outside len swap_mset [OF a b] by simp
    qed
  qed
qed

lemma partition_spec:
  assumes "0 \<le> low" and "low < high" and "high < int (length arr)" and "high \<le> 2147483647"
  shows "\<exists>arr' pi. partition arr low high = Some (arr', pi)
         \<and> length arr' = length arr \<and> mset arr' = mset arr \<and> low \<le> pi \<and> pi \<le> high
         \<and> (\<forall>n. low \<le> int n \<and> int n < pi \<longrightarrow> arr' ! n < arr' ! nat pi)
         \<and> (\<forall>n. pi < int n \<and> int n \<le> high \<longrightarrow> arr' ! nat pi \<le> arr' ! n)
         \<and> (\<forall>n. int n < low \<or> high < int n \<longrightarrow> arr' ! n = arr ! n)"
proof -
  let ?pivot = "arr ! nat high"
  have hb: "in_bounds arr high" using assms by (simp add: in_bounds_def)
  have start: "i32 (low - 1) = low - 1" using assms by (intro i32_id) linarith+
  have "\<exists>arr' i'. partition_loop arr ?pivot high (low - 1) low = Some (arr', i')
         \<and> length arr' = length arr \<and> mset arr' = mset arr \<and> low - 1 \<le> i' \<and> i' < high
         \<and> (\<forall>n. low \<le> int n \<and> int n \<le> i' \<longrightarrow> arr' ! n < ?pivot)
         \<and> (\<forall>n. i' < int n \<and> int n < high \<longrightarrow> \<not> arr' ! n < ?pivot)
         \<and> (\<forall>n. int n < low \<or> high \<le> int n \<longrightarrow> arr' ! n = arr ! n)"
    using assms by (intro partition_loop_spec) simp_all
  then obtain arr1 i' where loop: "partition_loop arr ?pivot high (low - 1) low = Some (arr1, i')"
    and len1: "length arr1 = length arr" and mset1: "mset arr1 = mset arr"
    and lo: "low - 1 \<le> i'" and hi: "i' < high"
    and left: "\<forall>n. low \<le> int n \<and> int n \<le> i' \<longrightarrow> arr1 ! n < ?pivot"
    and right: "\<forall>n. i' < int n \<and> int n < high \<longrightarrow> \<not> arr1 ! n < ?pivot"
    and outside: "\<forall>n. int n < low \<or> high \<le> int n \<longrightarrow> arr1 ! n = arr ! n"
    by blast
  let ?a = "nat (i' + 1)" and ?b = "nat high"
  let ?arr = "swap arr1 ?a ?b"
  have ia: "int ?a = i' + 1" and ib: "int ?b = high" using assms lo by simp_all
  have b1: "in_bounds arr1 (i' + 1)" "in_bounds arr1 high"
    using assms lo hi len1 by (simp_all add: in_bounds_def)
  have a: "?a < length arr1" and b: "?b < length arr1" using b1 by (simp_all add: in_bounds_nat)
  have pivot1: "arr1 ! ?b = ?pivot" using outside ib by simp
  have at_pi: "?arr ! ?a = ?pivot" using a b pivot1 by (simp add: swap_nth)
  have result: "partition arr low high = Some (?arr, i' + 1)"
    using hb b1 by (simp add: partition_def start loop)
  have below: "\<forall>n. low \<le> int n \<and> int n < i' + 1 \<longrightarrow> ?arr ! n < ?arr ! nat (i' + 1)"
  proof (intro allI impI)
    fix n assume n: "low \<le> int n \<and> int n < i' + 1"
    then have "int n \<noteq> i' + 1" "int n \<noteq> high" using hi by arith+
    then have "n \<noteq> ?a" "n \<noteq> ?b" using ia ib by auto
    then have "?arr ! n = arr1 ! n" using a b by (simp add: swap_nth)
    moreover have "arr1 ! n < ?pivot" using left n by simp
    ultimately show "?arr ! n < ?arr ! nat (i' + 1)" using at_pi by simp
  qed
  have above: "\<forall>n. i' + 1 < int n \<and> int n \<le> high \<longrightarrow> ?arr ! nat (i' + 1) \<le> ?arr ! n"
  proof (intro allI impI)
    fix n assume n: "i' + 1 < int n \<and> int n \<le> high"
    then have na: "n \<noteq> ?a" using ia by auto
    have "\<not> ?arr ! n < ?pivot"
    proof (cases "n = ?b")
      case True
      then have "?arr ! n = arr1 ! ?a" using a b by (simp add: swap_nth)
      moreover have "i' < int ?a \<and> int ?a < high" using n ia by simp
      ultimately show ?thesis using right by simp
    next
      case False
      then have "?arr ! n = arr1 ! n" using na a b by (simp add: swap_nth)
      moreover have "i' < int n \<and> int n < high" using n False ib by auto
      ultimately show ?thesis using right by simp
    qed
    then show "?arr ! nat (i' + 1) \<le> ?arr ! n" using at_pi by simp
  qed
  have untouched: "\<forall>n. int n < low \<or> high < int n \<longrightarrow> ?arr ! n = arr ! n"
  proof (intro allI impI)
    fix n assume n: "int n < low \<or> high < int n"
    then have "int n \<noteq> i' + 1" "int n \<noteq> high" using lo hi assms(2) by arith+
    then have "n \<noteq> ?a" "n \<noteq> ?b" using ia ib by auto
    then have "?arr ! n = arr1 ! n" using a b by (simp add: swap_nth)
    moreover have "arr1 ! n = arr ! n" using outside n by auto
    ultimately show "?arr ! n = arr ! n" by simp
  qed
  have "length ?arr = length arr" using len1 by (simp add: swap_length)
  moreover have "mset ?arr = mset arr" using swap_mset [OF a b] mset1 by simp
  moreover have "low \<le> i' + 1" "i' + 1 \<le> high" using lo hi by simp_all
  ultimately show ?thesis using result below above untouched by blast
qed

lemma list_three_parts:
  assumes "a \<le> b" and "b \<le> length xs"
  shows "xs = take a xs @ take (b - a) (drop a xs) @ drop b xs"
proof -
  have "take (b - a) (drop a xs) @ drop (b - a) (drop a xs) = drop a xs"
    by (rule append_take_drop_id)
  moreover have "drop (b - a) (drop a xs) = drop b xs" using assms by simp
  ultimately have "take (b - a) (drop a xs) @ drop b xs = drop a xs" by (simp only:)
  moreover have "take a xs @ drop a xs = xs" by (rule append_take_drop_id)
  ultimately show ?thesis by (simp only:)
qed

lemma segment_set_preserved:
  assumes len: "length ys = length xs" and perm: "mset ys = mset xs"
    and ab: "a \<le> b" "b \<le> length xs"
    and same: "\<forall>n. n < a \<or> b \<le> n \<longrightarrow> ys ! n = xs ! n"
  shows "set (take (b - a) (drop a ys)) = set (take (b - a) (drop a xs))"
proof -
  have head_eq: "take a ys = take a xs"
    using len ab same by (intro nth_equalityI) simp_all
  have tail_eq: "drop b ys = drop b xs"
    using len ab same by (intro nth_equalityI) simp_all
  have "mset ys = mset (take a ys) + mset (take (b - a) (drop a ys)) + mset (drop b ys)"
    using list_three_parts [of a b ys] ab len by (metis mset_append add.assoc)
  moreover have "mset xs = mset (take a xs) + mset (take (b - a) (drop a xs)) + mset (drop b xs)"
    using list_three_parts [of a b xs] ab by (metis mset_append add.assoc)
  ultimately have "mset (take (b - a) (drop a ys)) = mset (take (b - a) (drop a xs))"
    using perm head_eq tail_eq by simp
  then show ?thesis by (rule mset_eq_setD)
qed

lemma segment_nth:
  assumes "a \<le> n" and "n < b" and "b \<le> length xs"
  shows "take (b - a) (drop a xs) ! (n - a) = xs ! n"
proof -
  have "take (b - a) (drop a xs) ! (n - a) = drop a xs ! (n - a)"
    using assms by (intro nth_take) arith
  also have "\<dots> = xs ! (a + (n - a))" using assms by (intro nth_drop) arith
  also have "a + (n - a) = n" using assms by arith
  finally show ?thesis .
qed

lemma segment_all_preserved:
  assumes len: "length ys = length xs" and perm: "mset ys = mset xs"
    and ab: "a \<le> b" "b \<le> length xs"
    and same: "\<forall>n. n < a \<or> b \<le> n \<longrightarrow> ys ! n = xs ! n"
    and holds: "\<forall>n. a \<le> n \<and> n < b \<longrightarrow> P (xs ! n)"
  shows "\<forall>n. a \<le> n \<and> n < b \<longrightarrow> P (ys ! n)"
proof (intro allI impI)
  fix n assume n: "a \<le> n \<and> n < b"
  let ?ys = "take (b - a) (drop a ys)" and ?xs = "take (b - a) (drop a xs)"
  have "ys ! n = ?ys ! (n - a)" using n ab len by (intro segment_nth [symmetric]) simp_all
  moreover have "n - a < length ?ys"
  proof -
    have "n - a < b - a" using n by arith
    moreover have "b - a \<le> length ys - a" using ab len by arith
    ultimately show ?thesis by simp
  qed
  ultimately have "ys ! n \<in> set ?ys" by (metis nth_mem)
  then have "ys ! n \<in> set ?xs" using segment_set_preserved [OF len perm ab same] by simp
  then obtain k where k: "k < length ?xs" "?xs ! k = ys ! n" by (auto simp: in_set_conv_nth)
  then have "k < b - a" by simp
  then have "?xs ! k = xs ! (a + k)" using ab segment_nth [of a "a + k" b xs] by simp
  moreover have "P (xs ! (a + k))" using holds \<open>k < b - a\<close> by simp
  ultimately show "P (ys ! n)" using k(2) by simp
qed

lemma quick_sort_impl_spec:
  "0 \<le> low \<Longrightarrow> high < int (length arr) \<Longrightarrow> high < 2147483647
   \<Longrightarrow> \<exists>arr'. quick_sort_impl arr low high = Some arr'
         \<and> length arr' = length arr \<and> mset arr' = mset arr
         \<and> (\<forall>n. int n < low \<or> high < int n \<longrightarrow> arr' ! n = arr ! n)
         \<and> (\<forall>n m. low \<le> int n \<and> n \<le> m \<and> int m \<le> high \<longrightarrow> arr' ! n \<le> arr' ! m)"
proof (induction "nat (high - low)" arbitrary: arr low high rule: less_induct)
  case less
  show ?case
  proof (cases "low < high")
    case False
    have "quick_sort_impl arr low high = Some arr"
      using False by (subst quick_sort_impl.simps) simp
    moreover have "\<forall>n m. low \<le> int n \<and> n \<le> m \<and> int m \<le> high \<longrightarrow> arr ! n \<le> arr ! m"
    proof (intro allI impI)
      fix n m assume "low \<le> int n \<and> n \<le> m \<and> int m \<le> high"
      with False have "n = m" by arith
      then show "arr ! n \<le> arr ! m" by simp
    qed
    ultimately show ?thesis by simp
  next
    case True
    have "\<exists>arr' pi. partition arr low high = Some (arr', pi)
         \<and> length arr' = length arr \<and> mset arr' = mset arr \<and> low \<le> pi \<and> pi \<le> high
         \<and> (\<forall>n. low \<le> int n \<and> int n < pi \<longrightarrow> arr' ! n < arr' ! nat pi)
         \<and> (\<forall>n. pi < int n \<and> int n \<le> high \<longrightarrow> arr' ! nat pi \<le> arr' ! n)
         \<and> (\<forall>n. int n < low \<or> high < int n \<longrightarrow> arr' ! n = arr ! n)"
      using less.prems True by (intro partition_spec) simp_all
    then obtain arr1 pi where part: "partition arr low high = Some (arr1, pi)"
      and len1: "length arr1 = length arr" and mset1: "mset arr1 = mset arr"
      and pi: "low \<le> pi" "pi \<le> high"
      and below1: "\<forall>n. low \<le> int n \<and> int n < pi \<longrightarrow> arr1 ! n < arr1 ! nat pi"
      and above1: "\<forall>n. pi < int n \<and> int n \<le> high \<longrightarrow> arr1 ! nat pi \<le> arr1 ! n"
      and out1: "\<forall>n. int n < low \<or> high < int n \<longrightarrow> arr1 ! n = arr ! n"
      by blast
    let ?pivot = "arr1 ! nat pi"
    have "\<exists>arr'. quick_sort_impl arr1 low (pi - 1) = Some arr'
         \<and> length arr' = length arr1 \<and> mset arr' = mset arr1
         \<and> (\<forall>n. int n < low \<or> pi - 1 < int n \<longrightarrow> arr' ! n = arr1 ! n)
         \<and> (\<forall>n m. low \<le> int n \<and> n \<le> m \<and> int m \<le> pi - 1 \<longrightarrow> arr' ! n \<le> arr' ! m)"
      using less.prems True pi len1 by (intro less.hyps) simp_all
    then obtain arr2 where left: "quick_sort_impl arr1 low (pi - 1) = Some arr2"
      and len2: "length arr2 = length arr1" and mset2: "mset arr2 = mset arr1"
      and out2: "\<forall>n. int n < low \<or> pi - 1 < int n \<longrightarrow> arr2 ! n = arr1 ! n"
      and sorted2: "\<forall>n m. low \<le> int n \<and> n \<le> m \<and> int m \<le> pi - 1 \<longrightarrow> arr2 ! n \<le> arr2 ! m"
      by blast
    have next_low: "i32 (pi + 1) = pi + 1"
      using less.prems pi by (intro i32_id) linarith+
    have "\<exists>arr'. quick_sort_impl arr2 (pi + 1) high = Some arr'
         \<and> length arr' = length arr2 \<and> mset arr' = mset arr2
         \<and> (\<forall>n. int n < pi + 1 \<or> high < int n \<longrightarrow> arr' ! n = arr2 ! n)
         \<and> (\<forall>n m. pi + 1 \<le> int n \<and> n \<le> m \<and> int m \<le> high \<longrightarrow> arr' ! n \<le> arr' ! m)"
      using less.prems True pi len1 len2 by (intro less.hyps) simp_all
    then obtain arr3 where right: "quick_sort_impl arr2 (pi + 1) high = Some arr3"
      and len3: "length arr3 = length arr2" and mset3: "mset arr3 = mset arr2"
      and out3: "\<forall>n. int n < pi + 1 \<or> high < int n \<longrightarrow> arr3 ! n = arr2 ! n"
      and sorted3: "\<forall>n m. pi + 1 \<le> int n \<and> n \<le> m \<and> int m \<le> high \<longrightarrow> arr3 ! n \<le> arr3 ! m"
      by blast
    have result: "quick_sort_impl arr low high = Some arr3"
      using True by (subst quick_sort_impl.simps) (simp add: part left next_low right)
    have low0: "0 \<le> low" and pi0: "0 \<le> pi" using less.prems pi by simp_all
    have bound: "nat (high + 1) \<le> length arr" using less.prems by simp
    have small2: "\<forall>n. nat low \<le> n \<and> n < nat pi \<longrightarrow> arr2 ! n < ?pivot"
    proof (rule segment_all_preserved [where xs = arr1 and P = "\<lambda>x. x < ?pivot"])
      show "length arr2 = length arr1" by (rule len2)
      show "mset arr2 = mset arr1" by (rule mset2)
      show "nat low \<le> nat pi" using pi by simp
      show "nat pi \<le> length arr1" using pi bound len1 by simp
      show "\<forall>n. n < nat low \<or> nat pi \<le> n \<longrightarrow> arr2 ! n = arr1 ! n"
      proof (intro allI impI)
        fix n assume "n < nat low \<or> nat pi \<le> n"
        then have "int n < low \<or> pi - 1 < int n" using low0 pi0 by arith
        then show "arr2 ! n = arr1 ! n" using out2 by blast
      qed
      show "\<forall>n. nat low \<le> n \<and> n < nat pi \<longrightarrow> arr1 ! n < ?pivot"
      proof (intro allI impI)
        fix n assume "nat low \<le> n \<and> n < nat pi"
        then have "low \<le> int n \<and> int n < pi" using low0 pi0 by arith
        then show "arr1 ! n < ?pivot" using below1 by blast
      qed
    qed
    have large2: "\<forall>n. pi < int n \<and> int n \<le> high \<longrightarrow> ?pivot \<le> arr2 ! n"
    proof (intro allI impI)
      fix n assume n: "pi < int n \<and> int n \<le> high"
      then have "arr2 ! n = arr1 ! n" using out2 by simp
      then show "?pivot \<le> arr2 ! n" using above1 n by simp
    qed
    have large3: "\<forall>n. nat (pi + 1) \<le> n \<and> n < nat (high + 1) \<longrightarrow> ?pivot \<le> arr3 ! n"
    proof (rule segment_all_preserved [where xs = arr2 and P = "\<lambda>x. ?pivot \<le> x"])
      show "length arr3 = length arr2" by (rule len3)
      show "mset arr3 = mset arr2" by (rule mset3)
      show "nat (pi + 1) \<le> nat (high + 1)" using pi by simp
      show "nat (high + 1) \<le> length arr2" using bound len1 len2 by simp
      show "\<forall>n. n < nat (pi + 1) \<or> nat (high + 1) \<le> n \<longrightarrow> arr3 ! n = arr2 ! n"
      proof (intro allI impI)
        fix n assume "n < nat (pi + 1) \<or> nat (high + 1) \<le> n"
        then have "int n < pi + 1 \<or> high < int n" using pi0 by arith
        then show "arr3 ! n = arr2 ! n" using out3 by blast
      qed
      show "\<forall>n. nat (pi + 1) \<le> n \<and> n < nat (high + 1) \<longrightarrow> ?pivot \<le> arr2 ! n"
      proof (intro allI impI)
        fix n assume "nat (pi + 1) \<le> n \<and> n < nat (high + 1)"
        then have "pi < int n \<and> int n \<le> high" using pi0 by arith
        then show "?pivot \<le> arr2 ! n" using large2 by blast
      qed
    qed
    have at_pi: "arr3 ! nat pi = ?pivot"
    proof -
      have "arr3 ! nat pi = arr2 ! nat pi" using out3 pi0 by simp
      also have "\<dots> = arr1 ! nat pi" using out2 pi0 by simp
      finally show ?thesis .
    qed
    have small3: "arr3 ! n < ?pivot" if "low \<le> int n" "int n < pi" for n
    proof -
      have "arr3 ! n = arr2 ! n" using out3 that by simp
      moreover have "nat low \<le> n \<and> n < nat pi" using that low0 by arith
      ultimately show ?thesis using small2 by simp
    qed
    have big3: "?pivot \<le> arr3 ! n" if "pi < int n" "int n \<le> high" for n
    proof -
      have "nat (pi + 1) \<le> n \<and> n < nat (high + 1)" using that pi0 by arith
      then show ?thesis using large3 by blast
    qed
    have le_pivot: "arr3 ! n \<le> ?pivot" if "low \<le> int n" "int n \<le> pi" for n
    proof (cases "int n = pi")
      case True
      then have "n = nat pi" by simp
      then show ?thesis using at_pi by simp
    next
      case False
      then show ?thesis using small3 [of n] that by simp
    qed
    have ge_pivot: "?pivot \<le> arr3 ! n" if "pi \<le> int n" "int n \<le> high" for n
    proof (cases "int n = pi")
      case True
      then have "n = nat pi" by simp
      then show ?thesis using at_pi by simp
    next
      case False
      then show ?thesis using big3 [of n] that by simp
    qed
    have sorted: "\<forall>n m. low \<le> int n \<and> n \<le> m \<and> int m \<le> high \<longrightarrow> arr3 ! n \<le> arr3 ! m"
    proof (intro allI impI)
      fix n m assume nm: "low \<le> int n \<and> n \<le> m \<and> int m \<le> high"
      consider "int m < pi" | "pi < int n" | "int n \<le> pi" "pi \<le> int m" by linarith
      then show "arr3 ! n \<le> arr3 ! m"
      proof cases
        case 1
        then have "arr3 ! n = arr2 ! n" "arr3 ! m = arr2 ! m" using out3 nm by simp_all
        moreover have "arr2 ! n \<le> arr2 ! m" using sorted2 nm 1 by simp
        ultimately show ?thesis by simp
      next
        case 2
        then show ?thesis using sorted3 nm by simp
      next
        case 3
        have "arr3 ! n \<le> ?pivot" using le_pivot [of n] nm 3 by simp
        moreover have "?pivot \<le> arr3 ! m" using ge_pivot [of m] nm 3 by simp
        ultimately show ?thesis by simp
      qed
    qed
    have outside: "\<forall>n. int n < low \<or> high < int n \<longrightarrow> arr3 ! n = arr ! n"
    proof (intro allI impI)
      fix n assume n: "int n < low \<or> high < int n"
      then have "arr3 ! n = arr2 ! n" using out3 pi by auto
      also have "\<dots> = arr1 ! n" using out2 pi n by auto
      also have "\<dots> = arr ! n" using out1 n by blast
      finally show "arr3 ! n = arr ! n" .
    qed
    show ?thesis
      using result len1 len2 len3 mset1 mset2 mset3 outside sorted by simp
  qed
qed

lemma quick_sort_spec:
  assumes "length arr \<le> 2147483647"
  shows "\<exists>arr'. quick_sort arr = Some arr' \<and> mset arr' = mset arr \<and> sorted arr'"
proof (cases "arr = []")
  case True
  then show ?thesis by (simp add: quick_sort_def)
next
  case False
  let ?high = "int (length arr) - 1"
  have high: "i32 ?high = ?high" using assms by (intro i32_id) linarith+
  have "\<exists>arr'. quick_sort_impl arr 0 ?high = Some arr'
         \<and> length arr' = length arr \<and> mset arr' = mset arr
         \<and> (\<forall>n. int n < 0 \<or> ?high < int n \<longrightarrow> arr' ! n = arr ! n)
         \<and> (\<forall>n m. 0 \<le> int n \<and> n \<le> m \<and> int m \<le> ?high \<longrightarrow> arr' ! n \<le> arr' ! m)"
    using assms by (intro quick_sort_impl_spec) simp_all
  then obtain arr' where r: "quick_sort_impl arr 0 ?high = Some arr'"
    and len: "length arr' = length arr" and perm: "mset arr' = mset arr"
    and ordered: "\<forall>n m. 0 \<le> int n \<and> n \<le> m \<and> int m \<le> ?high \<longrightarrow> arr' ! n \<le> arr' ! m"
    by blast
  have "sorted arr'"
    unfolding sorted_iff_nth_mono
  proof (intro allI impI)
    fix n m assume "n \<le> m" "m < length arr'"
    then have "0 \<le> int n \<and> n \<le> m \<and> int m \<le> ?high" using len by simp
    then show "arr' ! n \<le> arr' ! m" using ordered by blast
  qed
  then show ?thesis using False r perm by (simp add: quick_sort_def high)
qed

section \<open>Helper lemmas: coin change\<close>

lemma positive_sum_length:
  "\<forall>c \<in> set cs. (0::int) < c \<Longrightarrow> int (length cs) \<le> sum_list cs"
  by (induction cs) auto

lemma bounded_sum_length:
  "\<forall>c \<in> set cs. c \<le> (b::int) \<Longrightarrow> sum_list cs \<le> b * int (length cs)"
  by (induction cs) (auto simp: algebra_simps)

lemma pays_length:
  assumes "list_all (\<lambda>c. 0 < c) coins" and "pays coins cs a"
  shows "int (length cs) \<le> a"
proof -
  have "\<forall>c \<in> set cs. 0 < c" using assms by (auto simp: pays_def list_all_iff)
  then show ?thesis using positive_sum_length [of cs] assms(2) by (simp add: pays_def)
qed

lemma pays_Nil: "pays coins [] 0"
  by (simp add: pays_def)

lemma pays_Cons: "pays coins (c # cs) a \<longleftrightarrow> c \<in> set coins \<and> pays coins cs (a - c)"
  by (auto simp: pays_def)

lemma via_all:
  assumes "list_all (\<lambda>c. 0 < c) coins" and "1 \<le> a"
  shows "via coins coins a cs \<longleftrightarrow> pays coins cs a"
proof (cases cs)
  case Nil
  then show ?thesis using assms(2) by (simp add: via_def pays_def)
next
  case (Cons c cs')
  then show ?thesis by (simp add: via_def pays_Cons)
qed

lemma via_Nil: "\<not> via [] coins a cs"
  by (simp add: via_def)

lemma via_snoc:
  "via (ps @ [c]) coins a cs \<longleftrightarrow> via ps coins a cs \<or> (\<exists>cs'. cs = c # cs' \<and> pays coins cs' (a - c))"
  by (auto simp: via_def)

lemma fewest_none: "\<not> (\<exists>cs. W cs) \<Longrightarrow> fewest W none none"
  by (simp add: fewest_def)

lemma fewest_cong:
  assumes "\<And>cs. W cs \<longleftrightarrow> W' cs" and "fewest W none v"
  shows "fewest W' none v"
proof -
  have "W = W'" using assms(1) by (intro ext)
  then show ?thesis using assms(2) by simp
qed

lemma fewest_skip:
  assumes "fewest (via ps coins a) none v" and "\<not> (\<exists>cs'. pays coins cs' (a - c))"
  shows "fewest (via (ps @ [c]) coins a) none v"
proof (rule fewest_cong [OF _ assms(1)])
  fix cs show "via ps coins a cs \<longleftrightarrow> via (ps @ [c]) coins a cs"
    using assms(2) by (auto simp: via_snoc)
qed

lemma fewest_take:
  assumes v: "fewest (via ps coins a) none v"
    and u: "fewest (\<lambda>cs. pays coins cs (a - c)) none u"
    and ex: "\<exists>cs'. pays coins cs' (a - c)"
    and room: "u + 1 \<le> none"
  shows "fewest (via (ps @ [c]) coins a) none (min v (u + 1))"
proof -
  from u ex obtain cu where cu: "pays coins cu (a - c)" "u = int (length cu)"
    and umin: "\<forall>cs. pays coins cs (a - c) \<longrightarrow> u \<le> int (length cs)"
    unfolding fewest_def by auto
  have new: "via (ps @ [c]) coins a (c # cu)" using cu(1) by (simp add: via_snoc)
  have newlen: "int (length (c # cu)) = u + 1" using cu(2) by simp
  show ?thesis
  proof (cases "\<exists>cs. via ps coins a cs")
    case False
    then have "v = none" using v by (simp add: fewest_def)
    then have m: "min v (u + 1) = u + 1" using room by simp
    have "\<forall>cs. via (ps @ [c]) coins a cs \<longrightarrow> u + 1 \<le> int (length cs)"
    proof (intro allI impI)
      fix cs assume "via (ps @ [c]) coins a cs"
      then obtain cs' where "cs = c # cs'" "pays coins cs' (a - c)"
        using False by (auto simp: via_snoc)
      then show "u + 1 \<le> int (length cs)" using umin by auto
    qed
    then show ?thesis unfolding fewest_def m using new newlen by auto
  next
    case True
    then obtain cv where cv: "via ps coins a cv" "v = int (length cv)"
      and vmin: "\<forall>cs. via ps coins a cs \<longrightarrow> v \<le> int (length cs)"
      using v unfolding fewest_def by auto
    have lower: "\<forall>cs. via (ps @ [c]) coins a cs \<longrightarrow> min v (u + 1) \<le> int (length cs)"
    proof (intro allI impI)
      fix cs assume "via (ps @ [c]) coins a cs"
      then consider "via ps coins a cs" | cs' where "cs = c # cs'" "pays coins cs' (a - c)"
        by (auto simp: via_snoc)
      then show "min v (u + 1) \<le> int (length cs)"
      proof cases
        case 1
        then show ?thesis using vmin by (simp add: min_le_iff_disj)
      next
        case 2
        then have "u + 1 \<le> int (length cs)" using umin by auto
        then show ?thesis by (simp add: min_le_iff_disj)
      qed
    qed
    have attained: "\<exists>cs. via (ps @ [c]) coins a cs \<and> min v (u + 1) = int (length cs)"
    proof (cases "v \<le> u + 1")
      case True
      then have "min v (u + 1) = int (length cv)" using cv(2) by simp
      moreover have "via (ps @ [c]) coins a cv" using cv(1) by (simp add: via_snoc)
      ultimately show ?thesis by blast
    next
      case False
      then have "min v (u + 1) = int (length (c # cu))" using newlen by simp
      then show ?thesis using new by blast
    qed
    have "\<exists>cs. via (ps @ [c]) coins a cs" using new by blast
    then show ?thesis unfolding fewest_def using attained lower by simp
  qed
qed

lemma fewest_exists_iff:
  assumes "list_all (\<lambda>c. 0 < c) coins" and "fewest (\<lambda>cs. pays coins cs a) none v" and "a < none"
  shows "(\<exists>cs. pays coins cs a) \<longleftrightarrow> v \<noteq> none"
proof
  assume "\<exists>cs. pays coins cs a"
  then obtain cs where "pays coins cs a" "v = int (length cs)"
    using assms(2) unfolding fewest_def by auto
  then have "v \<le> a" using pays_length [OF assms(1)] by simp
  then show "v \<noteq> none" using assms(3) by simp
next
  assume "v \<noteq> none"
  then show "\<exists>cs. pays coins cs a"
    using assms(2) unfolding fewest_def by (auto split: if_splits)
qed

lemma fewest_bounds:
  assumes "list_all (\<lambda>c. 0 < c) coins" and "fewest (\<lambda>cs. pays coins cs a) none v"
    and "\<exists>cs. pays coins cs a"
  shows "0 \<le> v \<and> v \<le> a"
proof -
  obtain cs where "pays coins cs a" "v = int (length cs)"
    using assms(2,3) unfolding fewest_def by auto
  then show ?thesis using pays_length [OF assms(1)] by simp
qed

lemma coin_change_coins_spec:
  "list_all (\<lambda>c. 0 < c) coins \<Longrightarrow> coins = ps @ rest \<Longrightarrow> 1 \<le> i \<Longrightarrow> i \<le> amount
   \<Longrightarrow> amount < 2147483647 \<Longrightarrow> length dp = nat (amount + 1)
   \<Longrightarrow> (\<forall>a. 0 \<le> a \<and> a < i \<longrightarrow> fewest (\<lambda>cs. pays coins cs a) (amount + 1) (dp ! nat a))
   \<Longrightarrow> fewest (via ps coins i) (amount + 1) (dp ! nat i)
   \<Longrightarrow> \<exists>dp'. coin_change_coins amount i rest dp = Inr dp' \<and> length dp' = length dp
         \<and> (\<forall>n. n \<noteq> nat i \<longrightarrow> dp' ! n = dp ! n)
         \<and> fewest (via coins coins i) (amount + 1) (dp' ! nat i)"
proof (induction rest arbitrary: ps dp)
  case Nil
  then show ?case by simp
next
  case (Cons c rest)
  let ?none = "amount + 1"
  have coins': "coins = (ps @ [c]) @ rest" using Cons.prems(2) by simp
  have cpos: "0 < c" using Cons.prems(1,2) by (simp add: list_all_iff)
  have none: "i32 (amount + 1) = amount + 1"
    using Cons.prems(3,4,5) by (intro i32_id) linarith+
  have skip: "\<exists>dp'. coin_change_coins amount i rest dp = Inr dp' \<and> length dp' = length dp
         \<and> (\<forall>n. n \<noteq> nat i \<longrightarrow> dp' ! n = dp ! n)
         \<and> fewest (via coins coins i) (amount + 1) (dp' ! nat i)"
    if "\<not> (\<exists>cs'. pays coins cs' (i - c))"
  proof -
    have "fewest (via (ps @ [c]) coins i) ?none (dp ! nat i)"
      using Cons.prems(8) that by (rule fewest_skip)
    then show ?thesis
      using Cons.prems(1,3-7) coins' by (intro Cons.IH [of "ps @ [c]" dp]) simp_all
  qed
  show ?case
  proof (cases "c \<le> i")
    case False
    have "\<not> (\<exists>cs'. pays coins cs' (i - c))"
    proof
      assume "\<exists>cs'. pays coins cs' (i - c)"
      then obtain cs' where "pays coins cs' (i - c)" by blast
      then have "int (length cs') \<le> i - c" by (rule pays_length [OF Cons.prems(1)])
      with False show False by simp
    qed
    then have "\<exists>dp'. coin_change_coins amount i rest dp = Inr dp' \<and> length dp' = length dp
         \<and> (\<forall>n. n \<noteq> nat i \<longrightarrow> dp' ! n = dp ! n)
         \<and> fewest (via coins coins i) (amount + 1) (dp' ! nat i)"
      by (rule skip)
    then show ?thesis using False by simp
  next
    case True
    let ?k = "i - c"
    have k: "0 \<le> ?k" "?k < i" using True cpos by simp_all
    have wrap: "i32 (i - c) = i - c"
      using k Cons.prems(4,5) by (intro i32_id) linarith+
    have inside: "in_bounds dp ?k"
      using k Cons.prems(4,6) by (simp add: in_bounds_def)
    let ?u = "dp ! nat ?k"
    have u: "fewest (\<lambda>cs. pays coins cs ?k) ?none ?u" using Cons.prems(7) k by simp
    have way_iff: "(\<exists>cs. pays coins cs ?k) \<longleftrightarrow> ?u \<noteq> ?none"
      using Cons.prems(1) u by (rule fewest_exists_iff) (use k Cons.prems(4) in simp)
    show ?thesis
    proof (cases "?u \<noteq> ?none")
      case False
      then have "\<not> (\<exists>cs'. pays coins cs' (i - c))" using way_iff by simp
      then have "\<exists>dp'. coin_change_coins amount i rest dp = Inr dp' \<and> length dp' = length dp
         \<and> (\<forall>n. n \<noteq> nat i \<longrightarrow> dp' ! n = dp ! n)
         \<and> fewest (via coins coins i) (amount + 1) (dp' ! nat i)"
        by (rule skip)
      then show ?thesis using True inside False by (simp add: wrap none)
    next
      case found: True
      then have ex: "\<exists>cs'. pays coins cs' ?k" using way_iff by simp
      have ub: "0 \<le> ?u \<and> ?u \<le> ?k" using Cons.prems(1) u ex by (rule fewest_bounds)
      have plus: "i32 (?u + 1) = ?u + 1"
        using ub k Cons.prems(4,5) by (intro i32_id) linarith+
      let ?dp = "dp[nat i := min (dp ! nat i) (?u + 1)]"
      have ilen: "nat i < length dp" using Cons.prems(3,4,6) by simp
      have cur: "fewest (via (ps @ [c]) coins i) ?none (?dp ! nat i)"
      proof -
        have "fewest (via (ps @ [c]) coins i) ?none (min (dp ! nat i) (?u + 1))"
          using Cons.prems(8) u ex by (rule fewest_take) (use ub k Cons.prems(4) in simp)
        then show ?thesis using ilen by simp
      qed
      have table: "\<forall>a. 0 \<le> a \<and> a < i \<longrightarrow> fewest (\<lambda>cs. pays coins cs a) ?none (?dp ! nat a)"
      proof (intro allI impI)
        fix a assume a: "0 \<le> a \<and> a < i"
        then have "nat a \<noteq> nat i" by arith
        then have "?dp ! nat a = dp ! nat a" by simp
        then show "fewest (\<lambda>cs. pays coins cs a) ?none (?dp ! nat a)"
          using Cons.prems(7) a by simp
      qed
      have "\<exists>dp'. coin_change_coins amount i rest ?dp = Inr dp' \<and> length dp' = length ?dp
         \<and> (\<forall>n. n \<noteq> nat i \<longrightarrow> dp' ! n = ?dp ! n)
         \<and> fewest (via coins coins i) (amount + 1) (dp' ! nat i)"
        using Cons.prems(1,3-6) coins' table cur
        by (intro Cons.IH [of "ps @ [c]" ?dp]) simp_all
      then obtain dp' where r: "coin_change_coins amount i rest ?dp = Inr dp'"
        and p: "length dp' = length ?dp" "\<forall>n. n \<noteq> nat i \<longrightarrow> dp' ! n = ?dp ! n"
          "fewest (via coins coins i) (amount + 1) (dp' ! nat i)"
        by blast
      have "coin_change_coins amount i (c # rest) dp = Inr dp'"
        using True inside found r by (simp add: wrap none plus)
      moreover have "\<forall>n. n \<noteq> nat i \<longrightarrow> dp' ! n = dp ! n" using p(2) by simp
      ultimately show ?thesis using p(1,3) by simp
    qed
  qed
qed

lemma coin_change_loop_spec:
  "list_all (\<lambda>c. 0 < c) coins \<Longrightarrow> 1 \<le> i \<Longrightarrow> i \<le> amount + 1 \<Longrightarrow> amount < 2147483647
   \<Longrightarrow> length dp = nat (amount + 1)
   \<Longrightarrow> (\<forall>a. 0 \<le> a \<and> a < i \<longrightarrow> fewest (\<lambda>cs. pays coins cs a) (amount + 1) (dp ! nat a))
   \<Longrightarrow> (\<forall>a. i \<le> a \<and> a \<le> amount \<longrightarrow> dp ! nat a = amount + 1)
   \<Longrightarrow> \<exists>dp'. coin_change_loop amount coins dp i = Inr dp' \<and> length dp' = length dp
         \<and> (\<forall>a. 0 \<le> a \<and> a \<le> amount \<longrightarrow>
               fewest (\<lambda>cs. pays coins cs a) (amount + 1) (dp' ! nat a))"
proof (induction amount coins dp i rule: coin_change_loop.induct)
  case (1 amount coins dp i)
  show ?case
  proof (cases "i \<le> amount")
    case False
    with "1.prems"(3) have "i = amount + 1" by simp
    with False "1.prems"(6) show ?thesis by (subst coin_change_loop.simps) simp
  next
    case True
    have "dp ! nat i = amount + 1" using "1.prems"(7) True by simp
    then have cur: "fewest (via [] coins i) (amount + 1) (dp ! nat i)"
      using fewest_none [of "via [] coins i" "amount + 1"] by (simp add: via_Nil)
    have "\<exists>dp'. coin_change_coins amount i coins dp = Inr dp' \<and> length dp' = length dp
         \<and> (\<forall>n. n \<noteq> nat i \<longrightarrow> dp' ! n = dp ! n)
         \<and> fewest (via coins coins i) (amount + 1) (dp' ! nat i)"
      using "1.prems"(1,2,4,5,6) True cur
      by (intro coin_change_coins_spec [of coins "[]" coins]) simp_all
    then obtain dp1 where r: "coin_change_coins amount i coins dp = Inr dp1"
      and len1: "length dp1 = length dp"
      and same: "\<forall>n. n \<noteq> nat i \<longrightarrow> dp1 ! n = dp ! n"
      and at_i: "fewest (via coins coins i) (amount + 1) (dp1 ! nat i)"
      by blast
    have pays_i: "fewest (\<lambda>cs. pays coins cs i) (amount + 1) (dp1 ! nat i)"
      using at_i via_all [OF "1.prems"(1,2)] by (rule fewest_cong [rotated])
    have table: "\<forall>a. 0 \<le> a \<and> a < i + 1 \<longrightarrow>
        fewest (\<lambda>cs. pays coins cs a) (amount + 1) (dp1 ! nat a)"
    proof (intro allI impI)
      fix a assume a: "0 \<le> a \<and> a < i + 1"
      show "fewest (\<lambda>cs. pays coins cs a) (amount + 1) (dp1 ! nat a)"
      proof (cases "a = i")
        case True
        then show ?thesis using pays_i by simp
      next
        case False
        then have "nat a \<noteq> nat i" using a "1.prems"(2) by arith
        then have "dp1 ! nat a = dp ! nat a" using same by simp
        moreover have "0 \<le> a \<and> a < i" using a False by simp
        ultimately show ?thesis using "1.prems"(6) by simp
      qed
    qed
    have rest: "\<forall>a. i + 1 \<le> a \<and> a \<le> amount \<longrightarrow> dp1 ! nat a = amount + 1"
    proof (intro allI impI)
      fix a assume a: "i + 1 \<le> a \<and> a \<le> amount"
      then have "nat a \<noteq> nat i" using "1.prems"(2) by arith
      then have "dp1 ! nat a = dp ! nat a" using same by simp
      then show "dp1 ! nat a = amount + 1" using "1.prems"(7) a by simp
    qed
    have "\<exists>dp'. coin_change_loop amount coins dp1 (i + 1) = Inr dp' \<and> length dp' = length dp1
         \<and> (\<forall>a. 0 \<le> a \<and> a \<le> amount \<longrightarrow>
               fewest (\<lambda>cs. pays coins cs a) (amount + 1) (dp' ! nat a))"
      using True r "1.prems"(1,2,4,5) len1 table rest by (intro "1.IH") simp_all
    moreover have "coin_change_loop amount coins dp i = coin_change_loop amount coins dp1 (i + 1)"
      using True r by (subst coin_change_loop.simps) simp
    ultimately show ?thesis using len1 by simp
  qed
qed

lemma coin_change_fewest:
  assumes pos: "list_all (\<lambda>c. 0 < c) coins" and amt: "0 \<le> amount" "amount < 2147483647"
  shows "\<exists>v. fewest (\<lambda>cs. pays coins cs amount) (amount + 1) v
           \<and> coin_change coins amount = Inr (if v > amount then - 1 else v)"
proof -
  let ?none = "amount + 1"
  let ?dp = "(replicate (nat ?none) ?none)[0 := 0]"
  have none: "i32 (amount + 1) = amount + 1" using amt by (intro i32_id) linarith+
  have zero: "fewest (\<lambda>cs. pays coins cs 0) ?none 0"
    unfolding fewest_def using pays_Nil [of coins] by auto
  have table: "\<forall>a. 0 \<le> a \<and> a < 1 \<longrightarrow> fewest (\<lambda>cs. pays coins cs a) ?none (?dp ! nat a)"
  proof (intro allI impI)
    fix a :: int assume "0 \<le> a \<and> a < 1"
    then have "a = 0" by simp
    then show "fewest (\<lambda>cs. pays coins cs a) ?none (?dp ! nat a)" using zero amt by simp
  qed
  have rest: "\<forall>a. 1 \<le> a \<and> a \<le> amount \<longrightarrow> ?dp ! nat a = ?none"
    by simp
  have "\<exists>dp'. coin_change_loop amount coins ?dp 1 = Inr dp' \<and> length dp' = length ?dp
         \<and> (\<forall>a. 0 \<le> a \<and> a \<le> amount \<longrightarrow>
               fewest (\<lambda>cs. pays coins cs a) ?none (dp' ! nat a))"
    using pos amt table rest by (intro coin_change_loop_spec) simp_all
  then obtain dp' where r: "coin_change_loop amount coins ?dp 1 = Inr dp'"
    and len: "length dp' = length ?dp"
    and final: "\<forall>a. 0 \<le> a \<and> a \<le> amount \<longrightarrow> fewest (\<lambda>cs. pays coins cs a) ?none (dp' ! nat a)"
    by blast
  have inside: "in_bounds dp' amount" using amt len by (simp add: in_bounds_def)
  have "coin_change coins amount = Inr (if dp' ! nat amount > amount then - 1 else dp' ! nat amount)"
    using amt inside r by (simp add: coin_change_def none)
  moreover have "fewest (\<lambda>cs. pays coins cs amount) ?none (dp' ! nat amount)"
    using final amt by simp
  ultimately show ?thesis by blast
qed

section \<open>Helper lemmas: longest increasing subsequence\<close>

lemma subseq_singleton_right: "subseq ys [x] \<longleftrightarrow> ys = [] \<or> ys = [x]"
  by (cases ys) auto

lemma subseq_snoc_cases:
  "subseq ys (p @ [x]) \<longleftrightarrow> subseq ys p \<or> (\<exists>ys'. ys = ys' @ [x] \<and> subseq ys' p)"
  unfolding subseq_append_iff subseq_singleton_right by auto

lemma increasing_snoc:
  "sorted_wrt (<) (ys @ [x :: int]) \<longleftrightarrow> sorted_wrt (<) ys \<and> (\<forall>y \<in> set ys. y < x)"
  by (simp add: sorted_wrt_append)

lemma increasing_le_last:
  "sorted_wrt (<) (ys :: int list) \<Longrightarrow> y \<in> set ys \<Longrightarrow> y \<le> last ys"
proof (induction ys rule: rev_induct)
  case Nil
  then show ?case by simp
next
  case (snoc x xs)
  then show ?case by (auto simp: increasing_snoc)
qed

lemma increasing_below_iff:
  assumes "sorted_wrt (<) (ys :: int list)" and "ys \<noteq> []"
  shows "(\<forall>y \<in> set ys. y < x) \<longleftrightarrow> last ys < x"
proof
  assume "\<forall>y \<in> set ys. y < x"
  then show "last ys < x" using assms(2) by simp
next
  assume "last ys < x"
  then show "\<forall>y \<in> set ys. y < x" using increasing_le_last [OF assms(1)] by fastforce
qed

lemma increasing_subseq_Nil: "increasing_subseq [] xs"
  by (simp add: increasing_subseq_def)

lemma increasing_subseq_of_Nil: "increasing_subseq ys [] \<longleftrightarrow> ys = []"
  by (auto simp: increasing_subseq_def)

lemma increasing_subseq_extend: "increasing_subseq ys p \<Longrightarrow> increasing_subseq ys (p @ q)"
  by (auto simp: increasing_subseq_def intro: subseq_rev_drop_many)

lemma increasing_subseq_snoc_cases:
  "increasing_subseq ys (p @ [x]) \<longleftrightarrow>
     increasing_subseq ys p
     \<or> (\<exists>ys'. ys = ys' @ [x] \<and> increasing_subseq ys' p \<and> (\<forall>y \<in> set ys'. y < x))"
  unfolding increasing_subseq_def subseq_snoc_cases by (auto simp: increasing_snoc)

lemma longest_increasing_unique:
  "longest_increasing xs m \<Longrightarrow> longest_increasing xs m' \<Longrightarrow> m = m'"
  unfolding longest_increasing_def by (metis le_antisym)

lemma longest_increasing_Nil: "longest_increasing [] 0"
  by (simp add: longest_increasing_def increasing_subseq_of_Nil)

lemma longest_increasing_le_length: "longest_increasing xs m \<Longrightarrow> m \<le> length xs"
  unfolding longest_increasing_def increasing_subseq_def by (auto dest: list_emb_length)

lemma lower_bound_le: "lower_bound tails num \<le> length tails"
  by (simp add: lower_bound_def length_takeWhile_le)

lemma lower_bound_before: "n < lower_bound tails num \<Longrightarrow> tails ! n < num"
  unfolding lower_bound_def
  by (metis nth_mem set_takeWhileD takeWhile_nth)

lemma lower_bound_at:
  "lower_bound tails num < length tails \<Longrightarrow> num \<le> tails ! lower_bound tails num"
  unfolding lower_bound_def using nth_length_takeWhile [of "\<lambda>t. t < num" tails] by simp

lemma tails_inv_update:
  assumes inv: "tails_inv p t" and k: "k \<le> length t"
    and before: "\<forall>n. n < k \<longrightarrow> t ! n < x"
    and at: "k < length t \<longrightarrow> x \<le> t ! k"
    and len: "length t' = max (length t) (Suc k)"
    and tk: "t' ! k = x"
    and others: "\<forall>n. n < length t \<and> n \<noteq> k \<longrightarrow> t' ! n = t ! n"
  shows "tails_inv (p @ [x]) t'"
proof -
  from inv have st: "sorted_wrt (<) t"
    and wit: "\<forall>n. n < length t \<longrightarrow>
        (\<exists>ys. increasing_subseq ys p \<and> length ys = Suc n \<and> last ys = t ! n)"
    and opt: "\<forall>ys. increasing_subseq ys p \<and> ys \<noteq> [] \<longrightarrow>
        length ys \<le> length t \<and> t ! (length ys - 1) \<le> last ys"
    unfolding tails_inv_def by simp_all
  have nth_less: "t ! i < t ! j" if "i < j" "j < length t" for i j
    using st that by (simp add: sorted_wrt_iff_nth_less)
  have low: "n < k" if "n < length t" "t ! n < x" for n
  proof (rule ccontr)
    assume "\<not> n < k"
    then have "k \<le> n" by simp
    then have "k < length t" using that(1) by simp
    then have "x \<le> t ! k" using at by simp
    moreover have "t ! k \<le> t ! n"
    proof (cases "k = n")
      case True
      then show ?thesis by simp
    next
      case False
      then have "k < n" using \<open>k \<le> n\<close> by simp
      then show ?thesis using nth_less [of k n] that(1) by simp
    qed
    ultimately show False using that(2) by simp
  qed
  have below: "t' ! n = t ! n \<and> t ! n < x" if "n < k" for n
  proof -
    have "n < length t \<and> n \<noteq> k" using that k by simp
    then show ?thesis using others before that by blast
  qed
  have lenk: "k < length t'" and lent: "length t \<le> length t'" using len by simp_all
  have old_index: "n < length t" if "n < length t'" "n \<noteq> k" for n
    using that len k by arith
  have le_old: "t' ! n \<le> t ! n" if "n < length t" for n
  proof (cases "n = k")
    case True
    then show ?thesis using at tk that by simp
  next
    case False
    then show ?thesis using others that by simp
  qed
  have ordered: "sorted_wrt (<) t'"
    unfolding sorted_wrt_iff_nth_less
  proof (intro allI impI)
    fix i j assume ij: "i < j" "j < length t'"
    consider "j = k" | "i = k" | "i \<noteq> k" "j \<noteq> k" by blast
    then show "t' ! i < t' ! j"
    proof cases
      case 1
      then have "i < k" using ij by simp
      then show ?thesis using below [of i] 1 tk by simp
    next
      case 2
      then have jk: "j \<noteq> k" "k < j" using ij by simp_all
      then have j: "j < length t" using old_index ij(2) by simp
      then have "k < length t" using jk by simp
      then have "x \<le> t ! k" using at by simp
      moreover have "t ! k < t ! j" using nth_less jk j by simp
      moreover have "t' ! j = t ! j" using others j jk by simp
      ultimately show ?thesis using 2 tk by simp
    next
      case 3
      then have j: "j < length t" using old_index ij(2) by simp
      then have i: "i < length t" using ij by simp
      have "t' ! i = t ! i" "t' ! j = t ! j" using others i j 3 by simp_all
      then show ?thesis using nth_less ij(1) j by simp
    qed
  qed
  have witnesses: "\<forall>n. n < length t' \<longrightarrow>
      (\<exists>ys. increasing_subseq ys (p @ [x]) \<and> length ys = Suc n \<and> last ys = t' ! n)"
  proof (intro allI impI)
    fix n assume n: "n < length t'"
    show "\<exists>ys. increasing_subseq ys (p @ [x]) \<and> length ys = Suc n \<and> last ys = t' ! n"
    proof (cases "n = k")
      case False
      then have nt: "n < length t" using old_index n by simp
      then obtain ys where "increasing_subseq ys p" "length ys = Suc n" "last ys = t ! n"
        using wit by blast
      moreover have "t' ! n = t ! n" using others nt False by simp
      ultimately show ?thesis using increasing_subseq_extend [of ys p "[x]"] by auto
    next
      case True
      show ?thesis
      proof (cases k)
        case 0
        have "increasing_subseq [x] (p @ [x])"
          by (simp add: increasing_subseq_def subseq_snoc_cases)
        then show ?thesis using True 0 tk by auto
      next
        case (Suc k')
        then have k': "k' < length t" "k' < k" using k by simp_all
        then obtain ys where ys: "increasing_subseq ys p" "length ys = Suc k'" "last ys = t ! k'"
          using wit by blast
        have "last ys < x" using ys(3) before k'(2) by simp
        moreover have "sorted_wrt (<) ys" "ys \<noteq> []"
          using ys(1,2) by (auto simp: increasing_subseq_def)
        ultimately have "\<forall>y \<in> set ys. y < x" using increasing_below_iff by blast
        then have "increasing_subseq (ys @ [x]) (p @ [x])"
          using ys(1) by (auto simp: increasing_subseq_snoc_cases)
        moreover have "length (ys @ [x]) = Suc n" using ys(2) True Suc by simp
        moreover have "last (ys @ [x]) = t' ! n" using True tk by simp
        ultimately show ?thesis by blast
      qed
    qed
  qed
  have optimal: "\<forall>ys. increasing_subseq ys (p @ [x]) \<and> ys \<noteq> [] \<longrightarrow>
      length ys \<le> length t' \<and> t' ! (length ys - 1) \<le> last ys"
  proof (intro allI impI)
    fix ys assume a: "increasing_subseq ys (p @ [x]) \<and> ys \<noteq> []"
    then consider "increasing_subseq ys p"
      | ys' where "ys = ys' @ [x]" "increasing_subseq ys' p" "\<forall>y \<in> set ys'. y < x"
      using increasing_subseq_snoc_cases [of ys p x] by blast
    then show "length ys \<le> length t' \<and> t' ! (length ys - 1) \<le> last ys"
    proof cases
      case 1
      then have o: "length ys \<le> length t" "t ! (length ys - 1) \<le> last ys" using opt a by simp_all
      have "length ys - 1 < length t" using o(1) a by (cases ys) simp_all
      then have "t' ! (length ys - 1) \<le> t ! (length ys - 1)" by (rule le_old)
      then show ?thesis using o lent by simp
    next
      case 2
      show ?thesis
      proof (cases "ys' = []")
        case True
        have "t' ! 0 \<le> x"
        proof (cases "k = 0")
          case True
          then show ?thesis using tk by simp
        next
          case False
          then have "0 < k" by simp
          then show ?thesis using below [of 0] by simp
        qed
        then show ?thesis using True 2(1) lenk by simp
      next
        case False
        then have o: "length ys' \<le> length t" "t ! (length ys' - 1) \<le> last ys'"
          using opt 2(2) by simp_all
        have pos: "0 < length ys'" using False by simp
        have "last ys' < x" using 2(3) False by simp
        then have "t ! (length ys' - 1) < x" using o(2) by simp
        moreover have "length ys' - 1 < length t" using o(1) pos by arith
        ultimately have "length ys' - 1 < k" using low by simp
        then have m: "length ys' \<le> k" using pos by arith
        have "t' ! length ys' \<le> x"
        proof (cases "length ys' = k")
          case True
          then show ?thesis using tk by simp
        next
          case False
          then have "length ys' < k" using m by simp
          then show ?thesis using below [of "length ys'"] by simp
        qed
        then show ?thesis using 2(1) m lenk by simp
      qed
    qed
  qed
  show ?thesis unfolding tails_inv_def using ordered witnesses optimal by blast
qed

lemma tails_inv_step:
  assumes "tails_inv p t"
  shows "tails_inv (p @ [x])
           (if lower_bound t x = length t then t @ [x] else t[lower_bound t x := x])"
proof -
  let ?k = "lower_bound t x"
  have k: "?k \<le> length t" by (rule lower_bound_le)
  have before: "\<forall>n. n < ?k \<longrightarrow> t ! n < x" using lower_bound_before by blast
  have at: "?k < length t \<longrightarrow> x \<le> t ! ?k" using lower_bound_at by blast
  show ?thesis
  proof (cases "?k = length t")
    case True
    have "tails_inv (p @ [x]) (t @ [x])"
      using assms k before at
    proof (rule tails_inv_update)
      show "length (t @ [x]) = max (length t) (Suc ?k)" using True by simp
      show "(t @ [x]) ! ?k = x" using True by simp
      show "\<forall>n. n < length t \<and> n \<noteq> ?k \<longrightarrow> (t @ [x]) ! n = t ! n" by (simp add: nth_append)
    qed
    then show ?thesis using True by simp
  next
    case False
    then have inside: "?k < length t" using k by simp
    have "tails_inv (p @ [x]) (t[?k := x])"
      using assms k before at
    proof (rule tails_inv_update)
      show "length (t[?k := x]) = max (length t) (Suc ?k)" using inside by simp
      show "t[?k := x] ! ?k = x" using inside by simp
      show "\<forall>n. n < length t \<and> n \<noteq> ?k \<longrightarrow> t[?k := x] ! n = t ! n" by simp
    qed
    then show ?thesis using False by simp
  qed
qed

lemma lis_tails_inv: "tails_inv p t \<Longrightarrow> tails_inv (p @ nums) (lis_tails nums t)"
proof (induction nums arbitrary: p t)
  case Nil
  then show ?case by simp
next
  case (Cons num nums)
  let ?t = "if lower_bound t num = length t then t @ [num] else t[lower_bound t num := num]"
  have "tails_inv (p @ [num]) ?t" using Cons.prems by (rule tails_inv_step)
  then have "tails_inv ((p @ [num]) @ nums) (lis_tails nums ?t)" by (rule Cons.IH)
  moreover have "lis_tails (num # nums) t = lis_tails nums ?t" by (simp add: Let_def)
  ultimately show ?case by simp
qed

lemma tails_inv_Nil: "tails_inv [] []"
  by (simp add: tails_inv_def increasing_subseq_of_Nil)

lemma tails_inv_longest:
  assumes "tails_inv xs t"
  shows "longest_increasing xs (length t)"
proof -
  from assms have wit: "\<forall>n. n < length t \<longrightarrow>
        (\<exists>ys. increasing_subseq ys xs \<and> length ys = Suc n \<and> last ys = t ! n)"
    and opt: "\<forall>ys. increasing_subseq ys xs \<and> ys \<noteq> [] \<longrightarrow>
        length ys \<le> length t \<and> t ! (length ys - 1) \<le> last ys"
    unfolding tails_inv_def by simp_all
  have attained: "\<exists>ys. increasing_subseq ys xs \<and> length ys = length t"
  proof (cases "length t")
    case 0
    then show ?thesis using increasing_subseq_Nil [of xs] by auto
  next
    case (Suc n)
    then have "n < length t" by simp
    then show ?thesis using wit Suc by auto
  qed
  have bound: "\<forall>ys. increasing_subseq ys xs \<longrightarrow> length ys \<le> length t"
  proof (intro allI impI)
    fix ys assume "increasing_subseq ys xs"
    then show "length ys \<le> length t" using opt by (cases "ys = []") simp_all
  qed
  show ?thesis unfolding longest_increasing_def using attained bound by blast
qed

lemma lis_tails_longest: "longest_increasing xs (length (lis_tails xs []))"
  using lis_tails_inv [OF tails_inv_Nil, of xs] by (simp add: tails_inv_longest)

lemma longest_ending_bound:
  assumes "longest_ending p x d"
  shows "1 \<le> d \<and> d \<le> Suc (length p)"
proof -
  obtain ys where "subseq ys p" "Suc (length ys) = d"
    using assms unfolding longest_ending_def by blast
  then show ?thesis using list_emb_length [of "(=)" ys p] by auto
qed

lemma longest_ending_Nil: "longest_ending [] x 1"
  by (auto simp: longest_ending_def)

lemma longest_ending_step:
  assumes d: "longest_ending q x d" and e: "longest_ending q y e"
  shows "longest_ending (q @ [y]) x (if y < x then max d (Suc e) else d)"
proof -
  obtain yd where yd: "subseq yd q" "sorted_wrt (<) (yd @ [x])" "Suc (length yd) = d"
    and dmax: "\<forall>ys. subseq ys q \<and> sorted_wrt (<) (ys @ [x]) \<longrightarrow> Suc (length ys) \<le> d"
    using d unfolding longest_ending_def by blast
  obtain ye where ye: "subseq ye q" "sorted_wrt (<) (ye @ [y])" "Suc (length ye) = e"
    and emax: "\<forall>ys. subseq ys q \<and> sorted_wrt (<) (ys @ [y]) \<longrightarrow> Suc (length ys) \<le> e"
    using e unfolding longest_ending_def by blast
  let ?r = "if y < x then max d (Suc e) else d"
  have upper: "\<forall>ys. subseq ys (q @ [y]) \<and> sorted_wrt (<) (ys @ [x]) \<longrightarrow> Suc (length ys) \<le> ?r"
  proof (intro allI impI)
    fix ys assume a: "subseq ys (q @ [y]) \<and> sorted_wrt (<) (ys @ [x])"
    then consider "subseq ys q" | ys' where "ys = ys' @ [y]" "subseq ys' q"
      using subseq_snoc_cases [of ys q y] by blast
    then show "Suc (length ys) \<le> ?r"
    proof cases
      case 1
      then have "Suc (length ys) \<le> d" using dmax a by simp
      then show ?thesis by auto
    next
      case 2
      then have s: "sorted_wrt (<) (ys' @ [y])" "y < x"
        using a by (simp_all add: sorted_wrt_append)
      then have "Suc (length ys') \<le> e" using emax 2(2) by simp
      then show ?thesis using 2(1) s(2) by simp
    qed
  qed
  have attained: "\<exists>ys. subseq ys (q @ [y]) \<and> sorted_wrt (<) (ys @ [x]) \<and> Suc (length ys) = ?r"
  proof (cases "y < x \<and> d < Suc e")
    case True
    have "subseq (ye @ [y]) (q @ [y])" using ye(1) by simp
    moreover have "sorted_wrt (<) ((ye @ [y]) @ [x])"
      using ye(2) True by (auto simp: sorted_wrt_append)
    moreover have "Suc (length (ye @ [y])) = ?r" using ye(3) True by simp
    ultimately show ?thesis by blast
  next
    case False
    have "subseq yd (q @ [y])" using yd(1) by (rule subseq_rev_drop_many)
    moreover have "Suc (length yd) = ?r" using yd(3) False by auto
    ultimately show ?thesis using yd(2) by blast
  qed
  show ?thesis unfolding longest_ending_def using attained upper by blast
qed

lemma longest_increasing_snoc:
  assumes m: "longest_increasing p m" and d: "longest_ending p x d"
  shows "longest_increasing (p @ [x]) (max m d)"
proof -
  obtain ym where ym: "increasing_subseq ym p" "length ym = m"
    and mmax: "\<forall>ys. increasing_subseq ys p \<longrightarrow> length ys \<le> m"
    using m unfolding longest_increasing_def by blast
  obtain yd where yd: "subseq yd p" "sorted_wrt (<) (yd @ [x])" "Suc (length yd) = d"
    and dmax: "\<forall>ys. subseq ys p \<and> sorted_wrt (<) (ys @ [x]) \<longrightarrow> Suc (length ys) \<le> d"
    using d unfolding longest_ending_def by blast
  have upper: "\<forall>ys. increasing_subseq ys (p @ [x]) \<longrightarrow> length ys \<le> max m d"
  proof (intro allI impI)
    fix ys assume a: "increasing_subseq ys (p @ [x])"
    then consider "increasing_subseq ys p"
      | ys' where "ys = ys' @ [x]" "increasing_subseq ys' p" "\<forall>y \<in> set ys'. y < x"
      using increasing_subseq_snoc_cases [of ys p x] by blast
    then show "length ys \<le> max m d"
    proof cases
      case 1
      then have "length ys \<le> m" using mmax by simp
      then show ?thesis by simp
    next
      case 2
      then have "subseq ys' p \<and> sorted_wrt (<) (ys' @ [x])"
        by (simp add: increasing_subseq_def sorted_wrt_append)
      then have "Suc (length ys') \<le> d" using dmax by simp
      then show ?thesis using 2(1) by simp
    qed
  qed
  have attained: "\<exists>ys. increasing_subseq ys (p @ [x]) \<and> length ys = max m d"
  proof (cases "m < d")
    case True
    have "increasing_subseq (yd @ [x]) (p @ [x])"
      using yd(1,2) by (simp add: increasing_subseq_def)
    moreover have "length (yd @ [x]) = max m d" using yd(3) True by simp
    ultimately show ?thesis by blast
  next
    case False
    have "increasing_subseq ym (p @ [x])" using ym(1) by (rule increasing_subseq_extend)
    moreover have "length ym = max m d" using ym(2) False by simp
    ultimately show ?thesis by blast
  qed
  show ?thesis unfolding longest_increasing_def using attained upper by blast
qed

lemma lis_n2_inner_spec:
  "j \<le> i \<Longrightarrow> i < length nums \<Longrightarrow> length dp = length nums \<Longrightarrow> length nums \<le> 2147483647
   \<Longrightarrow> (\<forall>k. k < i \<longrightarrow> (\<exists>e. longest_ending (take k nums) (nums ! k) e \<and> dp ! k = int e))
   \<Longrightarrow> longest_ending (take j nums) (nums ! i) d \<Longrightarrow> dp ! i = int d
   \<Longrightarrow> \<exists>d'. longest_ending (take i nums) (nums ! i) d'
          \<and> lis_n2_inner nums dp i j ! i = int d'
          \<and> length (lis_n2_inner nums dp i j) = length dp
          \<and> (\<forall>k. k \<noteq> i \<longrightarrow> lis_n2_inner nums dp i j ! k = dp ! k)"
proof (induction nums dp i j arbitrary: d rule: lis_n2_inner.induct)
  case (1 nums dp i j)
  show ?case
  proof (cases "j < i")
    case False
    with "1.prems"(1) have "j = i" by simp
    with "1.prems"(6,7) show ?thesis by (subst (1 2 3) lis_n2_inner.simps) auto
  next
    case True
    let ?x = "nums ! i" and ?y = "nums ! j"
    obtain e where e: "longest_ending (take j nums) ?y e" "dp ! j = int e"
      using "1.prems"(5) True by blast
    have "e \<le> Suc j" using longest_ending_bound [OF e(1)] by (simp add: min_def split: if_splits)
    then have "int e + 1 \<le> 2147483647" using True "1.prems"(2,4) by linarith
    then have plus: "i32 (dp ! j + 1) = int (Suc e)"
      using e(2) by (simp add: i32_id)
    let ?d = "if ?y < ?x then max d (Suc e) else d"
    let ?dp = "if ?y < ?x then dp[i := max (dp ! i) (i32 (dp ! j + 1))] else dp"
    have prefix: "take (j + 1) nums = take j nums @ [?y]"
      using True "1.prems"(2) by (simp add: take_Suc_conv_app_nth)
    have d1: "longest_ending (take (j + 1) nums) ?x ?d"
      unfolding prefix using "1.prems"(6) e(1) by (rule longest_ending_step)
    have at_i: "?dp ! i = int ?d"
      using "1.prems"(2,3,7) plus by (simp add: max_def)
    have len: "length ?dp = length nums" using "1.prems"(3) by simp
    have same: "\<forall>k. k \<noteq> i \<longrightarrow> ?dp ! k = dp ! k" by simp
    have table: "\<forall>k. k < i \<longrightarrow> (\<exists>e. longest_ending (take k nums) (nums ! k) e \<and> ?dp ! k = int e)"
    proof (intro allI impI)
      fix k assume "k < i"
      then have "?dp ! k = dp ! k" by simp
      then show "\<exists>e. longest_ending (take k nums) (nums ! k) e \<and> ?dp ! k = int e"
        using "1.prems"(5) \<open>k < i\<close> by simp
    qed
    have "\<exists>d'. longest_ending (take i nums) (nums ! i) d'
          \<and> lis_n2_inner nums ?dp i (j + 1) ! i = int d'
          \<and> length (lis_n2_inner nums ?dp i (j + 1)) = length ?dp
          \<and> (\<forall>k. k \<noteq> i \<longrightarrow> lis_n2_inner nums ?dp i (j + 1) ! k = ?dp ! k)"
      using True "1.prems"(2,4) len table d1 at_i by (intro "1.IH") simp_all
    moreover have "lis_n2_inner nums dp i j = lis_n2_inner nums ?dp i (j + 1)"
      using True by (subst lis_n2_inner.simps) simp
    ultimately show ?thesis using len "1.prems"(3) same by auto
  qed
qed

lemma lis_n2_outer_spec:
  "1 \<le> i \<Longrightarrow> i \<le> length nums \<Longrightarrow> length dp = length nums \<Longrightarrow> length nums \<le> 2147483647
   \<Longrightarrow> (\<forall>k. k < i \<longrightarrow> (\<exists>e. longest_ending (take k nums) (nums ! k) e \<and> dp ! k = int e))
   \<Longrightarrow> (\<forall>k. i \<le> k \<and> k < length nums \<longrightarrow> dp ! k = 1)
   \<Longrightarrow> longest_increasing (take i nums) m \<Longrightarrow> max_len = int m
   \<Longrightarrow> \<exists>m'. longest_increasing nums m' \<and> lis_n2_outer nums dp max_len i = int m'"
proof (induction nums dp max_len i arbitrary: m rule: lis_n2_outer.induct)
  case (1 nums dp max_len i)
  show ?case
  proof (cases "i < length nums")
    case False
    with "1.prems"(2) have "i = length nums" by simp
    with "1.prems"(7,8) show ?thesis by (subst lis_n2_outer.simps) auto
  next
    case True
    let ?dp = "lis_n2_inner nums dp i 0"
    have start: "longest_ending (take 0 nums) (nums ! i) 1"
      using longest_ending_Nil [of "nums ! i"] by simp
    have one: "dp ! i = int 1" using "1.prems"(6) True by simp
    have "\<exists>d'. longest_ending (take i nums) (nums ! i) d'
          \<and> ?dp ! i = int d' \<and> length ?dp = length dp \<and> (\<forall>k. k \<noteq> i \<longrightarrow> ?dp ! k = dp ! k)"
      using True "1.prems"(3,4,5) start one by (intro lis_n2_inner_spec) simp_all
    then obtain d' where d': "longest_ending (take i nums) (nums ! i) d'" "?dp ! i = int d'"
      and len: "length ?dp = length dp" and same: "\<forall>k. k \<noteq> i \<longrightarrow> ?dp ! k = dp ! k"
      by blast
    have prefix: "take (i + 1) nums = take i nums @ [nums ! i]"
      using True by (simp add: take_Suc_conv_app_nth)
    have longest: "longest_increasing (take (i + 1) nums) (max m d')"
      unfolding prefix using "1.prems"(7) d'(1) by (rule longest_increasing_snoc)
    have new_max: "max max_len (?dp ! i) = int (max m d')"
      using "1.prems"(8) d'(2) by simp
    have table: "\<forall>k. k < i + 1 \<longrightarrow>
        (\<exists>e. longest_ending (take k nums) (nums ! k) e \<and> ?dp ! k = int e)"
    proof (intro allI impI)
      fix k assume k: "k < i + 1"
      show "\<exists>e. longest_ending (take k nums) (nums ! k) e \<and> ?dp ! k = int e"
      proof (cases "k = i")
        case True
        then show ?thesis using d' by blast
      next
        case False
        then have "k < i" using k by simp
        moreover have "?dp ! k = dp ! k" using same False by simp
        ultimately show ?thesis using "1.prems"(5) by simp
      qed
    qed
    have fresh: "\<forall>k. i + 1 \<le> k \<and> k < length nums \<longrightarrow> ?dp ! k = 1"
    proof (intro allI impI)
      fix k assume k: "i + 1 \<le> k \<and> k < length nums"
      then have "?dp ! k = dp ! k" using same by simp
      then show "?dp ! k = 1" using "1.prems"(6) k by simp
    qed
    have "\<exists>m'. longest_increasing nums m'
        \<and> lis_n2_outer nums ?dp (max max_len (?dp ! i)) (i + 1) = int m'"
      using True "1.prems"(3,4) len table fresh longest new_max
      by (intro "1.IH" [of ?dp "max m d'"]) simp_all
    moreover have "lis_n2_outer nums dp max_len i
        = lis_n2_outer nums ?dp (max max_len (?dp ! i)) (i + 1)"
      using True by (subst lis_n2_outer.simps) (simp add: Let_def)
    ultimately show ?thesis by simp
  qed
qed

lemma length_of_lis_n2_longest:
  assumes "length nums \<le> 2147483647"
  shows "\<exists>m. longest_increasing nums m \<and> length_of_lis_n2 nums = int m"
proof (cases "nums = []")
  case True
  then show ?thesis using longest_increasing_Nil by (auto simp: length_of_lis_n2_def)
next
  case False
  let ?dp = "replicate (length nums) (1::int)"
  have pos: "0 < length nums" using False by simp
  then have pos1: "1 \<le> length nums" by arith
  have first: "longest_ending (take 0 nums) (nums ! 0) 1"
    using longest_ending_Nil [of "nums ! 0"] by simp
  have table: "\<forall>k. k < 1 \<longrightarrow> (\<exists>e. longest_ending (take k nums) (nums ! k) e \<and> ?dp ! k = int e)"
  proof (intro allI impI)
    fix k :: nat assume "k < 1"
    then have "k = 0" by simp
    then show "\<exists>e. longest_ending (take k nums) (nums ! k) e \<and> ?dp ! k = int e"
      using first pos by auto
  qed
  have "take 1 nums = [] @ [nums ! 0]" using pos by (cases nums) simp_all
  moreover have "longest_increasing ([] @ [nums ! 0]) (max 0 1)"
    using longest_increasing_Nil longest_ending_Nil by (rule longest_increasing_snoc)
  ultimately have one: "longest_increasing (take 1 nums) 1" by simp
  have "\<exists>m'. longest_increasing nums m' \<and> lis_n2_outer nums ?dp 1 1 = int m'"
    using pos1 assms table one by (intro lis_n2_outer_spec [where m = 1]) simp_all
  then show ?thesis using False by (simp add: length_of_lis_n2_def)
qed

lemma length_of_lis_wrapped:
  "\<exists>m. longest_increasing nums m \<and> length_of_lis nums = i32 (int m)"
  using lis_tails_longest [of nums] by (auto simp: length_of_lis_def)

section \<open>Claims\<close>

text \<open>
  C1 (amended). \<^verbatim>\<open>quick_sort\<close> sorts its argument: for every vector of ints \<open>v\<close> with at most
  \<open>2^31 - 1\<close> elements, \<^verbatim>\<open>quick_sort(v)\<close> returns, and then \<open>v\<close> holds the same multiset of
  elements as before the call, in non-decreasing order; \<^verbatim>\<open>quick_sort\<close> of the empty vector
  leaves it empty. The bound is the range of the \<^verbatim>\<open>int\<close> indices of \<^verbatim>\<open>quick_sort_impl\<close>.
\<close>

theorem quick_sort_sorts:
  assumes "length v \<le> 2147483647"
  shows "(\<exists>v'. quick_sort v = Some v' \<and> mset v' = mset v \<and> sorted v')
         \<and> quick_sort [] = Some []"
  using quick_sort_spec [OF assms] by (simp add: quick_sort_def)

text \<open>The theorem at a vector of six elements with a repeated one.\<close>

theorem quick_sort_sorts_witness:
  "length [5, 2, 9, 1, 5, 6 :: int] \<le> 2147483647
   \<and> quick_sort [5, 2, 9, 1, 5, 6] = Some [1, 2, 5, 5, 6, 9]"
proof -
  have small: "length [5, 2, 9, 1, 5, 6 :: int] \<le> 2147483647" by simp
  obtain v' where v': "quick_sort [5, 2, 9, 1, 5, 6] = Some v'"
    and perm: "mset v' = mset [5, 2, 9, 1, 5, 6]" and ordered: "sorted v'"
    using quick_sort_sorts [OF small] by blast
  have "sort [5, 2, 9, 1, 5, 6 :: int] = v'"
    using perm ordered by (rule properties_for_sort)
  then have "v' = [1, 2, 5, 5, 6, 9]" by simp
  with small v' show ?thesis by simp
qed

text \<open>
  The claim as stated, for every vector: on the vector of a 1 followed by \<open>2^31\<close> zeros the
  conversion of \<^verbatim>\<open>arr.size() - 1\<close> to \<^verbatim>\<open>int\<close> gives a negative \<open>high\<close>, and \<^verbatim>\<open>quick_sort\<close> leaves
  the vector as it is, which is not in non-decreasing order.
\<close>

theorem quick_sort_large_vector_counterexample:
  "quick_sort (1 # replicate 2147483648 0) = Some (1 # replicate 2147483648 0)
   \<and> \<not> sorted (1 # replicate 2147483648 (0::int))"
proof -
  have "i32 (int (length (1 # replicate 2147483648 (0::int))) - 1) = - 2147483648"
    by (simp add: i32_def)
  then have "quick_sort (1 # replicate 2147483648 0) = Some (1 # replicate 2147483648 0)"
    by (subst quick_sort_def, subst quick_sort_impl.simps) simp
  moreover have "\<not> sorted (1 # replicate 2147483648 (0::int))" by simp
  ultimately show ?thesis by simp
qed

text \<open>
  C2 (amended). Every Fibonacci implementation of the repository returns the \<open>n\<close>-th Fibonacci
  number (\<open>F(0) = 0\<close>, \<open>F(1) = 1\<close>) for every \<open>n \<ge> 0\<close> whose Fibonacci number fits the return
  type: \<^verbatim>\<open>long long\<close> for \<^verbatim>\<open>fib_naive\<close>, \<^verbatim>\<open>fib_tail\<close>, \<^verbatim>\<open>fib_dp\<close>, \<^verbatim>\<open>fib_optimized\<close> and the three
  memoising versions, \<^verbatim>\<open>int\<close> for the \<^verbatim>\<open>constexpr\<close> \<^verbatim>\<open>fibonacci\<close>. The memoising versions do so
  on a memo that is sound for \<open>n\<close>: \<^verbatim>\<open>fib_memoized\<close> when every entry of the global map for a
  key from 2 to \<open>n\<close> is the Fibonacci number of its key (such as the cleared map),
  \<^verbatim>\<open>fib_memo_vec\<close> and \<^verbatim>\<open>fib_memo\<close> when the table they are given has an element for every
  index from 2 to \<open>n\<close> and each of these is the marker \<open>-1\<close> or the Fibonacci number of its
  index. The table of \<^verbatim>\<open>create_fibonacci_table\<close> holds \<open>F(0), ..., F(9)\<close>. In particular
  \<^verbatim>\<open>fib_dp\<close>, \<^verbatim>\<open>fibonacci\<close> and \<^verbatim>\<open>fib_tail\<close> return 55 on input 10.
\<close>

theorem fibonacci_implementations:
  assumes "0 \<le> n"
  shows "(int (fib_number (nat n)) \<le> LLONG_MAX \<longrightarrow>
            fib_naive n = int (fib_number (nat n))
          \<and> fib_tail n 0 1 = Some (int (fib_number (nat n)))
          \<and> fib_dp n = Inr (int (fib_number (nat n)))
          \<and> fib_optimized n = int (fib_number (nat n))
          \<and> (\<forall>memo. fib_map_ok n memo \<longrightarrow> fst (fib_memoized n memo) = int (fib_number (nat n)))
          \<and> (\<forall>memo. fib_table_ok n memo \<longrightarrow>
                map_option fst (fib_memo_vec n memo) = Some (int (fib_number (nat n)))
              \<and> map_option fst (fib_memo n memo) = Some (int (fib_number (nat n)))))
       \<and> (int (fib_number (nat n)) \<le> INT_MAX \<longrightarrow> fibonacci n = int (fib_number (nat n)))
       \<and> create_fibonacci_table = map (\<lambda>k. int (fib_number k)) [0..<10]
       \<and> fib_dp 10 = Inr 55 \<and> fibonacci 10 = 55 \<and> fib_tail 10 0 1 = Some 55"
proof -
  let ?F = "int (fib_number (nat n))"
  have long: "fib_naive n = ?F \<and> fib_tail n 0 1 = Some ?F \<and> fib_dp n = Inr ?F
          \<and> fib_optimized n = ?F
          \<and> (\<forall>memo. fib_map_ok n memo \<longrightarrow> fst (fib_memoized n memo) = ?F)
          \<and> (\<forall>memo. fib_table_ok n memo \<longrightarrow>
                map_option fst (fib_memo_vec n memo) = Some ?F
              \<and> map_option fst (fib_memo n memo) = Some ?F)"
    if fits: "?F \<le> LLONG_MAX"
  proof -
    have b: "?F \<le> 9223372036854775807" using fits by (simp add: LLONG_MAX_def)
    have small: "n \<le> 128" using assms b by (rule fib_number_fits_small)
    have naive: "fib_naive n = ?F" using assms b by (rule fib_naive_fib)
    have "fib_tail (int (nat n)) (int (fib_number 0)) (int (fib_number (Suc 0)))
          = Some (int (fib_number (0 + nat n)))"
      using small b assms by (intro fib_tail_fib) simp_all
    then have tail: "fib_tail n 0 1 = Some ?F" using assms by simp
    have dp: "fib_dp n = Inr ?F" using assms small b by (intro fib_dp_fib) simp_all
    have opt: "fib_optimized n = ?F"
    proof (cases "n \<le> 1")
      case True
      with assms have "n = 0 \<or> n = 1" by auto
      then show ?thesis by (auto simp: fib_optimized_def)
    next
      case False
      then have "fib_optimized_loop n 0 1 2 = ?F"
        using b by (intro fib_optimized_loop_fib) simp_all
      then show ?thesis using False by (simp add: fib_optimized_def)
    qed
    have memoized: "fst (fib_memoized n memo) = ?F" if "fib_map_ok n memo" for memo
      using fib_memoized_fib [OF assms order_refl b that] by simp
    have vec: "map_option fst (fib_memo_vec n memo) = Some ?F
               \<and> map_option fst (fib_memo n memo) = Some ?F"
      if ok: "fib_table_ok n memo" for memo
    proof -
      obtain memo' where "fib_memo_vec n memo = Some (?F, memo')"
        using fib_memo_vec_fib [OF assms order_refl b ok] by blast
      then show ?thesis by (simp add: fib_memo_eq)
    qed
    show ?thesis using naive tail dp opt memoized vec by blast
  qed
  have short: "fibonacci n = ?F" if fits: "?F \<le> INT_MAX"
  proof (cases "n \<le> 1")
    case True
    with assms have "n = 0 \<or> n = 1" by auto
    then show ?thesis by (auto simp: fibonacci_def)
  next
    case False
    have "?F \<le> 2147483647" using fits by (simp add: INT_MAX_def)
    then have "fibonacci_loop n 0 1 2 = ?F"
      using False by (intro fibonacci_loop_fib) simp_all
    then show ?thesis using False by (simp add: fibonacci_def)
  qed
  have table: "create_fibonacci_table = map (\<lambda>k. int (fib_number k)) [0..<10]"
    by (simp add: create_fibonacci_table_value eval_nat_numeral upt_rec)
  show ?thesis using long short table fib_values_10 by blast
qed

text \<open>
  The theorem at \<open>n = 10\<close>, on the cleared memo map and on a table of eleven markers.
\<close>

theorem fibonacci_implementations_witness:
  "(0::int) \<le> 10 \<and> int (fib_number (nat 10)) \<le> LLONG_MAX \<and> int (fib_number (nat 10)) \<le> INT_MAX
   \<and> fib_map_ok 10 Map.empty \<and> fib_table_ok 10 (replicate 11 (- 1))
   \<and> fib_naive 10 = 55 \<and> fib_tail 10 0 1 = Some 55 \<and> fib_dp 10 = Inr 55
   \<and> fib_optimized 10 = 55 \<and> fibonacci 10 = 55
   \<and> fst (fib_memoized 10 Map.empty) = 55
   \<and> map_option fst (fib_memo_vec 10 (replicate 11 (- 1))) = Some 55
   \<and> map_option fst (fib_memo 10 (replicate 11 (- 1))) = Some 55"
proof -
  have pre: "fib_map_ok 10 Map.empty" "fib_table_ok 10 (replicate 11 (- 1))"
    by (rule fib_map_ok_empty, rule fib_table_ok_fresh) simp
  have f10: "int (fib_number (nat 10)) = 55" by (simp add: fib_number_10)
  have fits: "int (fib_number (nat 10)) \<le> LLONG_MAX" "int (fib_number (nat 10)) \<le> INT_MAX"
    by (simp_all add: fib_number_10 LLONG_MAX_def INT_MAX_def)
  have inst: "(0::int) \<le> 10" by simp
  note all = fibonacci_implementations [OF inst, unfolded f10]
  have long: "fib_naive 10 = 55 \<and> fib_tail 10 0 1 = Some 55 \<and> fib_dp 10 = Inr 55
      \<and> fib_optimized 10 = 55"
    using all fits(1) [unfolded f10] by blast
  have memoized: "fst (fib_memoized 10 Map.empty) = 55"
    using all fits(1) [unfolded f10] pre(1) by blast
  have vec: "map_option fst (fib_memo_vec 10 (replicate 11 (- 1))) = Some 55
      \<and> map_option fst (fib_memo 10 (replicate 11 (- 1))) = Some 55"
    using all fits(1) [unfolded f10] pre(2) by blast
  have short: "fibonacci 10 = 55"
    using all fits(2) [unfolded f10] by blast
  show ?thesis using inst fits pre long memoized vec short by blast
qed

text \<open>
  The claim as stated, for every memo: \<^verbatim>\<open>fib_memo\<close> and \<^verbatim>\<open>fib_memo_vec\<close> take the table from
  their caller and \<^verbatim>\<open>fib_memoized\<close> reads the global map. On the table
  \<open>{-1, -1, -1, -1, 100, -1, -1}\<close>, and on the map that holds 100 for the key 4, the value
  returned for \<open>n = 6\<close> is 202 and not \<open>F(6) = 8\<close>; on the empty table \<^verbatim>\<open>memo[6]\<close> is an access
  beyond the end of the vector.
\<close>

theorem fibonacci_memo_counterexample:
  "(0::int) \<le> 6 \<and> fib_number (nat 6) = 8 \<and> int (fib_number (nat 6)) \<le> LLONG_MAX
   \<and> map_option fst (fib_memo 6 [- 1, - 1, - 1, - 1, 100, - 1, - 1]) = Some 202
   \<and> map_option fst (fib_memo_vec 6 [- 1, - 1, - 1, - 1, 100, - 1, - 1]) = Some 202
   \<and> fst (fib_memoized 6 (Map.empty(4 \<mapsto> 100))) = 202
   \<and> fib_memo 6 [] = None \<and> fib_memo_vec 6 [] = None"
proof -
  have six: "nat 6 = Suc (Suc (Suc (Suc (Suc (Suc 0)))))" by simp
  have f6: "fib_number (nat 6) = 8" unfolding six by simp
  have memo: "map_option fst (fib_memo 6 [- 1, - 1, - 1, - 1, 100, - 1, - 1]) = Some 202"
    by (simp add: fib_memo.simps i64_def)
  have vec: "map_option fst (fib_memo_vec 6 [- 1, - 1, - 1, - 1, 100, - 1, - 1]) = Some 202"
    by (simp add: fib_memo_vec.simps i64_def)
  have map: "fst (fib_memoized 6 (Map.empty(4 \<mapsto> 100))) = 202"
    by (simp add: fib_memoized.simps i64_def)
  have short: "fib_memo 6 [] = None" "fib_memo_vec 6 [] = None"
    by (simp_all add: fib_memo.simps fib_memo_vec.simps)
  show ?thesis using f6 memo vec map short by (simp add: LLONG_MAX_def)
qed

text \<open>
  C3 (amended). Each factorial implementation returns \<open>n!\<close> for every \<open>n \<ge> 0\<close> whose
  factorial fits the return type: \<^verbatim>\<open>int\<close> for the two \<^verbatim>\<open>constexpr\<close> functions (that is
  \<open>n \<le> 12\<close>), \<^verbatim>\<open>long long\<close> for the three of \<^verbatim>\<open>recursion_demo.cpp\<close> (that is \<open>n \<le> 20\<close>).
  In particular \<open>factorial(0) = factorial(1) = 1\<close> and \<open>factorial(5) = 120\<close>, as the
  \<^verbatim>\<open>static_assert\<close> says.
\<close>

theorem factorial_within_range:
  assumes "0 \<le> n"
  shows "(fact (nat n) \<le> INT_MAX \<longrightarrow>
            factorial_basic_demo n = fact (nat n) \<and> factorial_constexpr_demo n = fact (nat n))
         \<and> (fact (nat n) \<le> LLONG_MAX \<longrightarrow>
            factorial_recursion_demo n = fact (nat n) \<and> factorial_normal n = fact (nat n)
            \<and> factorial_tail n 1 = fact (nat n))
         \<and> factorial_constexpr_demo 5 = 120 \<and> factorial_recursion_demo 5 = 120"
proof (intro conjI impI)
  assume b: "fact (nat n) \<le> INT_MAX"
  then have b': "(fact (nat n) :: int) \<le> 2147483647" by (simp add: INT_MAX_def)
  show "factorial_basic_demo n = fact (nat n)"
    using factorial_basic_demo_nat [OF b'] assms by simp
  show "factorial_constexpr_demo n = fact (nat n)"
    using assms b' by (rule factorial_constexpr_demo_fact)
next
  assume b: "fact (nat n) \<le> LLONG_MAX"
  then have b': "(fact (nat n) :: int) \<le> 9223372036854775807" by (simp add: LLONG_MAX_def)
  show r: "factorial_recursion_demo n = fact (nat n)"
    using factorial_recursion_demo_nat [OF b'] assms by simp
  show "factorial_normal n = fact (nat n)"
    using r by (simp only: factorial_normal_eq)
  show "factorial_tail n 1 = fact (nat n)"
    using factorial_tail_fact [of n 1] assms b' by simp
next
  show "factorial_constexpr_demo 5 = 120"
    by (simp add: factorial_constexpr_demo_def factorial_loop.simps i32_def)
  show "factorial_recursion_demo 5 = 120"
    by (simp add: factorial_recursion_demo.simps i64_def)
qed

text \<open>The theorem at \<open>n = 5\<close>, the value of the \<^verbatim>\<open>static_assert\<close>, and at \<open>n = 0\<close> and \<open>n = 1\<close>.\<close>

theorem factorial_within_range_witness:
  "(0::int) \<le> 5 \<and> fact (nat 5) \<le> INT_MAX \<and> fact (nat 5) \<le> LLONG_MAX
   \<and> factorial_basic_demo 5 = 120 \<and> factorial_constexpr_demo 5 = 120
   \<and> factorial_recursion_demo 5 = 120 \<and> factorial_normal 5 = 120 \<and> factorial_tail 5 1 = 120
   \<and> factorial_basic_demo 0 = 1 \<and> factorial_constexpr_demo 0 = 1
   \<and> factorial_recursion_demo 0 = 1 \<and> factorial_normal 0 = 1 \<and> factorial_tail 0 1 = 1
   \<and> factorial_basic_demo 1 = 1 \<and> factorial_constexpr_demo 1 = 1
   \<and> factorial_recursion_demo 1 = 1 \<and> factorial_normal 1 = 1 \<and> factorial_tail 1 1 = 1"
proof -
  have f5: "(fact 5 :: int) = 120" by (simp add: fact_numeral)
  show ?thesis
    using factorial_within_range [of 5] factorial_within_range [of 0] factorial_within_range [of 1]
    by (simp add: f5 INT_MAX_def LLONG_MAX_def)
qed

text \<open>
  The claim as stated, for every \<open>n \<ge> 0\<close>: \<open>13!\<close> does not fit an \<^verbatim>\<open>int\<close> and \<open>21!\<close> does
  not fit a \<^verbatim>\<open>long long\<close>.
\<close>

theorem factorial_overflow_counterexample:
  "factorial_constexpr_demo 13 = 1932053504 \<and> factorial_basic_demo 13 = 1932053504
   \<and> fact 13 = (6227020800 :: int)
   \<and> factorial_recursion_demo 21 = - 4249290049419214848
   \<and> fact 21 = (51090942171709440000 :: int)"
proof -
  have "factorial_constexpr_demo 13 = 1932053504"
    by (simp add: factorial_constexpr_demo_def factorial_loop.simps i32_def)
  moreover have "factorial_basic_demo 13 = 1932053504"
    by (simp add: factorial_basic_demo.simps i32_def)
  moreover have "fact 13 = (6227020800 :: int)"
    by (simp add: fact_numeral)
  moreover have "factorial_recursion_demo 21 = - 4249290049419214848"
    by (simp add: factorial_recursion_demo.simps i64_def)
  moreover have "fact 21 = (51090942171709440000 :: int)"
    by (simp add: fact_numeral)
  ultimately show ?thesis by (intro conjI)
qed

text \<open>
  C4. \<^verbatim>\<open>validate_age(age)\<close> throws \<^verbatim>\<open>std::invalid_argument\<close> if and only if
  \<open>age < 0\<close> or \<open>age > 150\<close>; for every age in \<open>[0, 150]\<close> it returns normally; and in
  either case the state after the call is the state before it.
\<close>

theorem validate_age_throws_iff:
  "((\<exists>w. fst (validate_age age s) = Inl (invalid_argument w)) \<longleftrightarrow> (age < 0 \<or> age > 150))
   \<and> ((0 \<le> age \<and> age \<le> 150) = (fst (validate_age age s) = Inr ()))
   \<and> snd (validate_age age s) = s"
  by (auto simp: validate_age_def)

text \<open>
  C5 (amended). For every vector \<open>v\<close> and every target, \<^verbatim>\<open>find_index(v, target)\<close> returns
  \<^verbatim>\<open>std::nullopt\<close> exactly when the target does not occur in \<open>v\<close>; when the target occurs,
  with \<open>k\<close> the smallest index such that \<open>v[k] = target\<close>, it returns
  \<^verbatim>\<open>static_cast<int>(k)\<close>, which is \<open>k\<close> itself whenever \<open>k < 2^31\<close>, the range of the
  \<^verbatim>\<open>int\<close> returned. The bound is on the index found, not on the length of the vector.
\<close>

theorem find_index_first_occurrence:
  "(target \<in> set v \<longrightarrow>
      (\<exists>k<length v. v ! k = target \<and> (\<forall>j<k. v ! j \<noteq> target)
          \<and> find_index v target = Some (i32 (int k))
          \<and> (k < 2147483648 \<longrightarrow> find_index v target = Some (int k))))
   \<and> (find_index v target = None \<longleftrightarrow> target \<notin> set v)"
proof (intro conjI impI)
  assume occurs: "target \<in> set v"
  obtain k where k: "k < length v" "v ! k = target" "\<forall>j. j < k \<longrightarrow> v ! j \<noteq> target"
    using first_occurrence [OF occurs] by auto
  have found: "find_index v target = Some (i32 (int k))"
    using k(1) k(2) k(3) by (rule find_index_first)
  have "find_index v target = Some (int k)" if "k < 2147483648"
  proof -
    have "i32 (int k) = int k"
      using that by (intro i32_id) linarith+
    with found show ?thesis by simp
  qed
  with found k show "\<exists>k<length v. v ! k = target \<and> (\<forall>j<k. v ! j \<noteq> target)
          \<and> find_index v target = Some (i32 (int k))
          \<and> (k < 2147483648 \<longrightarrow> find_index v target = Some (int k))"
    by blast
next
  show "find_index v target = None \<longleftrightarrow> target \<notin> set v"
    unfolding find_index_def find_index_loop_None by (simp add: in_set_conv_nth)
qed

text \<open>
  The theorem at \<open>v = [5, 3, 7, 3]\<close>: the first 3 is at index 1, and 4 does not occur; and at
  the vector of a 0 followed by \<open>2^31\<close> ones, longer than any \<^verbatim>\<open>int\<close> index, where the target
  0 is found at index 0.
\<close>

theorem find_index_first_occurrence_witness:
  "3 \<in> set [5, 3, 7, 3 :: int]
   \<and> find_index [5, 3, 7, 3] 3 = Some 1 \<and> find_index [5, 3, 7, 3] 4 = None
   \<and> 2147483648 < length (0 # replicate 2147483648 (1::int))
   \<and> find_index (0 # replicate 2147483648 1) 0 = Some 0"
proof -
  from find_index_first_occurrence [of 3 "[5, 3, 7, 3]"]
  obtain k where k: "k < 4" "[5, 3, 7, 3 :: int] ! k = 3" "\<forall>j<k. [5, 3, 7, 3 :: int] ! j \<noteq> 3"
    "k < 2147483648 \<longrightarrow> find_index [5, 3, 7, 3] 3 = Some (int k)"
    by auto
  have "k = 1"
  proof (rule ccontr)
    assume "k \<noteq> 1"
    with k(1) have "k = 0 \<or> k = 2 \<or> k = 3" by arith
    moreover have "k = 3 \<Longrightarrow> False" using k(3) [rule_format, of 1] by simp
    ultimately show False using k(2) by auto
  qed
  with k(4) have first: "find_index [5, 3, 7, 3] 3 = Some 1" by simp
  from find_index_first_occurrence [of 4 "[5, 3, 7, 3]"]
  have none: "find_index [5, 3, 7, 3] 4 = None" by simp
  let ?v = "0 # replicate 2147483648 (1::int)"
  have "(0::int) \<in> set ?v" by simp
  with find_index_first_occurrence [of 0 ?v]
  obtain m where m: "\<forall>j<m. ?v ! j \<noteq> 0"
    "m < 2147483648 \<longrightarrow> find_index ?v 0 = Some (int m)"
    by blast
  have "m = 0"
  proof (rule ccontr)
    assume "m \<noteq> 0"
    then have "0 < m" by simp
    with m(1) have "?v ! 0 \<noteq> 0" by blast
    then show False by simp
  qed
  with m(2) have early: "find_index ?v 0 = Some 0" by simp
  from first none early show ?thesis by simp
qed

text \<open>
  The claim as stated, for every vector: in the vector of \<open>2^31\<close> zeros followed by a 1, the
  target 1 occurs at index \<open>2^31\<close> only, and the value returned is \<open>-2^31\<close>.
\<close>

theorem find_index_large_vector_counterexample:
  "(1::int) \<in> set (replicate 2147483648 0 @ [1])
   \<and> (replicate 2147483648 0 @ [1::int]) ! 2147483648 = 1
   \<and> find_index (replicate 2147483648 0 @ [1]) 1 = Some (- 2147483648)"
proof -
  let ?v = "replicate 2147483648 (0::int) @ [1]"
  have nth: "?v ! 2147483648 = 1"
    using nth_append_length [of "replicate 2147483648 (0::int)" 1 "[]"] by simp
  have before: "\<forall>j. j < 2147483648 \<longrightarrow> ?v ! j \<noteq> 1"
    by (simp add: nth_append)
  have "find_index ?v 1 = Some (i32 (int 2147483648))"
    using nth before by (intro find_index_first) auto
  moreover have "i32 (int 2147483648) = - 2147483648" by (simp add: i32_def)
  ultimately show ?thesis using nth by simp
qed

text \<open>
  C6 (amended). For every vector of ints with at most \<open>2^31 - 1\<close> elements, the quadratic
  \<^verbatim>\<open>length_of_lis_n2\<close> and the \<^verbatim>\<open>lower_bound\<close>-based \<^verbatim>\<open>length_of_lis\<close> return the same value,
  namely the length of the longest strictly increasing subsequence; both return 0 on the
  empty vector.
\<close>

theorem lis_versions_agree:
  assumes "int (length nums) \<le> INT_MAX"
  shows "length_of_lis_n2 nums = length_of_lis nums
         \<and> (\<exists>m. longest_increasing nums m \<and> length_of_lis nums = int m)
         \<and> length_of_lis_n2 [] = 0 \<and> length_of_lis [] = 0"
proof -
  have small: "length nums \<le> 2147483647" using assms by (simp add: INT_MAX_def)
  obtain m where m: "longest_increasing nums m" "length_of_lis_n2 nums = int m"
    using length_of_lis_n2_longest [OF small] by blast
  obtain m' where m': "longest_increasing nums m'" "length_of_lis nums = i32 (int m')"
    using length_of_lis_wrapped [of nums] by blast
  have same: "m' = m" using m'(1) m(1) by (rule longest_increasing_unique)
  have "m \<le> length nums" using m(1) by (rule longest_increasing_le_length)
  then have "i32 (int m) = int m" using small by (intro i32_id) linarith+
  then have fast: "length_of_lis nums = int m" using m'(2) same by simp
  have "length_of_lis_n2 [] = 0" by (simp add: length_of_lis_n2_def)
  moreover have "length_of_lis [] = 0" by (simp add: length_of_lis_def i32_def)
  ultimately show ?thesis using m fast by auto
qed

text \<open>The theorem at the vector of the demo, whose longest increasing subsequences have 4 elements.\<close>

theorem lis_versions_agree_witness:
  "int (length [10, 9, 2, 5, 3, 7, 101, 18 :: int]) \<le> INT_MAX
   \<and> length_of_lis [10, 9, 2, 5, 3, 7, 101, 18] = 4
   \<and> length_of_lis_n2 [10, 9, 2, 5, 3, 7, 101, 18] = 4
   \<and> longest_increasing [10, 9, 2, 5, 3, 7, 101, 18] 4"
proof -
  have small: "int (length [10, 9, 2, 5, 3, 7, 101, 18 :: int]) \<le> INT_MAX"
    by (simp add: INT_MAX_def)
  have fast: "length_of_lis [10, 9, 2, 5, 3, 7, 101, 18] = 4"
    by (simp add: length_of_lis_def lower_bound_def i32_def)
  obtain m where m: "longest_increasing [10, 9, 2, 5, 3, 7, 101, 18] m"
    "length_of_lis [10, 9, 2, 5, 3, 7, 101, 18] = int m"
    and eq: "length_of_lis_n2 [10, 9, 2, 5, 3, 7, 101, 18] = length_of_lis [10, 9, 2, 5, 3, 7, 101, 18]"
    using lis_versions_agree [OF small] by blast
  have "m = 4" using m(2) fast by simp
  then show ?thesis using small fast m(1) eq by simp
qed

text \<open>
  The claim as stated, for every vector: the vector \<open>0, 1, ..., 2^31 - 1\<close> is strictly
  increasing, so its longest increasing subsequence has \<open>2^31\<close> elements, and the \<^verbatim>\<open>int\<close> that
  \<^verbatim>\<open>length_of_lis\<close> returns for \<^verbatim>\<open>tails.size()\<close> is \<open>-2^31\<close>.
\<close>

theorem lis_large_vector_counterexample:
  "longest_increasing (map int [0..<2147483648]) 2147483648
   \<and> length_of_lis (map int [0..<2147483648]) = - 2147483648"
proof -
  let ?v = "map int [0..<2147483648]"
  have "sorted_wrt (<) ?v" by (simp add: sorted_wrt_map)
  then have whole: "increasing_subseq ?v ?v" by (simp add: increasing_subseq_def)
  have "\<forall>ys. increasing_subseq ys ?v \<longrightarrow> length ys \<le> length ?v"
    by (auto simp: increasing_subseq_def dest: list_emb_length)
  then have "longest_increasing ?v (length ?v)"
    unfolding longest_increasing_def using whole by blast
  then have longest: "longest_increasing ?v 2147483648" by simp
  obtain m where m: "longest_increasing ?v m" "length_of_lis ?v = i32 (int m)"
    using length_of_lis_wrapped [of ?v] by blast
  have "m = 2147483648" using m(1) longest by (rule longest_increasing_unique)
  then have "length_of_lis ?v = - 2147483648" using m(2) by (simp add: i32_def)
  then show ?thesis using longest by simp
qed








text \<open>
  C9 (amended). For every list of strictly positive coin denominations and every amount
  with \<open>0 \<le> amount < INT_MAX\<close>, \<^verbatim>\<open>coin_change(coins, amount)\<close> returns the minimum number of
  coins (with repetition) whose values sum to the amount, and returns \<open>-1\<close> exactly when no
  choice of the given coins sums to the amount; in particular \<^verbatim>\<open>coin_change(coins, 0)\<close> is 0.
\<close>

theorem coin_change_minimum:
  assumes "list_all (\<lambda>c. 0 < c) coins" and "0 \<le> amount" and "amount < INT_MAX"
  shows "((\<exists>cs. pays coins cs amount) \<longrightarrow>
            (\<exists>cs. pays coins cs amount \<and> coin_change coins amount = Inr (int (length cs))
               \<and> (\<forall>cs'. pays coins cs' amount \<longrightarrow> length cs \<le> length cs')))
         \<and> (coin_change coins amount = Inr (- 1) \<longleftrightarrow> \<not> (\<exists>cs. pays coins cs amount))
         \<and> coin_change coins 0 = Inr 0"
proof -
  have amt: "amount < 2147483647" using assms(3) by (simp add: INT_MAX_def)
  obtain v where v: "fewest (\<lambda>cs. pays coins cs amount) (amount + 1) v"
    and r: "coin_change coins amount = Inr (if v > amount then - 1 else v)"
    using coin_change_fewest [OF assms(1,2) amt] by blast
  have some: "\<exists>cs. pays coins cs amount \<and> coin_change coins amount = Inr (int (length cs))
               \<and> (\<forall>cs'. pays coins cs' amount \<longrightarrow> length cs \<le> length cs')"
    and not_minus: "coin_change coins amount \<noteq> Inr (- 1)"
    if ex: "\<exists>cs. pays coins cs amount"
  proof -
    obtain cs where cs: "pays coins cs amount" "v = int (length cs)"
      and least: "\<forall>cs'. pays coins cs' amount \<longrightarrow> v \<le> int (length cs')"
      using v ex unfolding fewest_def by auto
    have "v \<le> amount" using pays_length [OF assms(1) cs(1)] cs(2) by simp
    then have res: "coin_change coins amount = Inr (int (length cs))" using r cs(2) by simp
    moreover have "\<forall>cs'. pays coins cs' amount \<longrightarrow> length cs \<le> length cs'"
      using least cs(2) by simp
    ultimately show "\<exists>cs. pays coins cs amount \<and> coin_change coins amount = Inr (int (length cs))
               \<and> (\<forall>cs'. pays coins cs' amount \<longrightarrow> length cs \<le> length cs')"
      using cs(1) by blast
    show "coin_change coins amount \<noteq> Inr (- 1)" using res by simp
  qed
  have none: "coin_change coins amount = Inr (- 1)" if "\<not> (\<exists>cs. pays coins cs amount)"
  proof -
    have "v = amount + 1" using v that by (simp add: fewest_def)
    then show ?thesis using r by simp
  qed
  have zero: "coin_change coins 0 = Inr 0"
    by (simp add: coin_change_def coin_change_loop.simps in_bounds_def i32_def)
  show ?thesis using some not_minus none zero by blast
qed

text \<open>
  The theorem at the demo's denominations 1, 2, 5 and amount 11, which the coins 5, 5, 1
  pay: three coins.
\<close>

theorem coin_change_minimum_witness:
  "list_all (\<lambda>c. 0 < c) [1, 2, 5 :: int] \<and> (0::int) \<le> 11 \<and> 11 < INT_MAX
   \<and> pays [1, 2, 5] [5, 5, 1] 11
   \<and> coin_change [1, 2, 5] 11 \<noteq> Inr (- 1)
   \<and> (\<exists>cs. pays [1, 2, 5] cs 11 \<and> coin_change [1, 2, 5] 11 = Inr (int (length cs))
         \<and> length cs \<le> 3)
   \<and> coin_change [1, 2, 5] 11 = Inr 3"
proof -
  have pos: "list_all (\<lambda>c. 0 < c) [1, 2, 5 :: int]" by simp
  have amt: "(0::int) \<le> 11" "11 < INT_MAX" by (simp_all add: INT_MAX_def)
  have way: "pays [1, 2, 5] [5, 5, 1] 11" by (simp add: pays_def)
  note inst = coin_change_minimum [OF pos amt]
  have ex: "\<exists>cs. pays [1, 2, 5] cs 11" using way by blast
  obtain cs where cs: "pays [1, 2, 5] cs 11" "coin_change [1, 2, 5] 11 = Inr (int (length cs))"
    and least: "\<forall>cs'. pays [1, 2, 5] cs' 11 \<longrightarrow> length cs \<le> length cs'"
    using inst ex by blast
  have three: "length cs \<le> 3" using least way by fastforce
  have not_minus: "coin_change [1, 2, 5] 11 \<noteq> Inr (- 1)" using inst ex by blast
  have "\<forall>c \<in> set cs. c \<le> 5" using cs(1) by (auto simp: pays_def)
  then have "sum_list cs \<le> 5 * int (length cs)" by (rule bounded_sum_length)
  then have "3 \<le> length cs" using cs(1) by (simp add: pays_def)
  with three have "length cs = 3" by simp
  then have computed: "coin_change [1, 2, 5] 11 = Inr 3" using cs(2) by simp
  show ?thesis using pos amt way not_minus cs three computed by blast
qed

text \<open>
  The claim as stated, for every amount \<open>\<ge> 0\<close>: the amount \<^verbatim>\<open>INT_MAX\<close> is paid by that many
  coins of value 1, but \<open>amount + 1\<close> is not an \<^verbatim>\<open>int\<close>, and the table of that size cannot
  be made.
\<close>

theorem coin_change_int_max_counterexample:
  "(0::int) < 1 \<and> pays [1] (replicate 2147483647 1) 2147483647
   \<and> coin_change [1] 2147483647 = Inl length_error"
proof -
  have "pays [1] (replicate 2147483647 1) 2147483647"
    by (simp add: pays_def sum_list_replicate)
  moreover have "coin_change [1] 2147483647 = Inl length_error"
    by (simp add: coin_change_def i32_def)
  ultimately show ?thesis by simp
qed

text \<open>
  C10 (amended). \<^verbatim>\<open>unique_paths\<close> is symmetric in its two arguments wherever the number of
  paths fits an \<^verbatim>\<open>int\<close>: for all \<open>m \<ge> 1\<close> and \<open>n \<ge> 1\<close> with \<open>C(m+n-2, m-1) \<le> INT_MAX\<close>,
  \<open>unique_paths(m, n) = unique_paths(n, m)\<close>, both equal to the binomial coefficient
  \<open>C(m+n-2, m-1)\<close> counting the monotone lattice paths of an \<open>m\<close>-by-\<open>n\<close> grid.
\<close>

theorem unique_paths_symmetric_binomial:
  assumes "1 \<le> m" and "1 \<le> n" and "int (nat (m + n - 2) choose nat (m - 1)) \<le> INT_MAX"
  shows "unique_paths m n = unique_paths n m
         \<and> unique_paths m n = Inr (int (nat (m + n - 2) choose nat (m - 1)))"
proof -
  let ?a = "nat (m - 1)" and ?b = "nat (n - 1)"
  have total: "nat (m + n - 2) = ?a + ?b" using assms(1,2) by simp
  have mn: "unique_paths m n = Inr (i32 (int ((?a + ?b) choose ?b)))"
    using assms(1,2) by (rule unique_paths_wrapped)
  have nm: "unique_paths n m = Inr (i32 (int ((?b + ?a) choose ?a)))"
    using assms(2,1) by (rule unique_paths_wrapped)
  have sym: "(?a + ?b) choose ?b = (?b + ?a) choose ?a" by (rule paths_binomial_symmetric)
  have flip: "(?a + ?b) choose ?b = (?a + ?b) choose ?a"
    using sym by (simp add: add.commute)
  have "i32 (int ((?a + ?b) choose ?a)) = int ((?a + ?b) choose ?a)"
    using assms(3) by (intro i32_id) (simp_all add: INT_MAX_def total)
  then have "unique_paths m n = Inr (int ((?a + ?b) choose ?a))" using mn flip by simp
  then show ?thesis using mn nm sym by (simp add: total)
qed

text \<open>The theorem at the two calls of the demo, a 3-by-7 grid and a 7-by-3 grid: 28 paths.\<close>

theorem unique_paths_symmetric_binomial_witness:
  "(1::int) \<le> 3 \<and> (1::int) \<le> 7 \<and> int (nat (3 + 7 - 2) choose nat (3 - 1)) \<le> INT_MAX
   \<and> unique_paths 3 7 = Inr 28 \<and> unique_paths 7 3 = Inr 28"
proof -
  have m: "(1::int) \<le> 3" and n: "(1::int) \<le> 7" by simp_all
  have "(8::nat) choose 2 = 28" by (simp add: choose_two)
  then have c: "int (nat (3 + 7 - 2) choose nat (3 - 1)) = 28" by simp
  have fits: "int (nat (3 + 7 - 2) choose nat (3 - 1)) \<le> INT_MAX"
    unfolding c by (simp add: INT_MAX_def)
  have "unique_paths 3 7 = unique_paths 7 3 \<and> unique_paths 3 7 = Inr 28"
    using unique_paths_symmetric_binomial [OF m n fits] unfolding c by blast
  then show ?thesis using m n fits by auto
qed

text \<open>
  The claim as stated, for all \<open>m \<ge> 1\<close> and \<open>n \<ge> 1\<close>: an 18-by-18 grid has
  \<open>C(34, 17) = 2333606220\<close> paths, more than \<^verbatim>\<open>INT_MAX\<close>, and the value returned is another.
\<close>

theorem unique_paths_overflow_counterexample:
  "unique_paths 18 18 = Inr (- 1961361076)
   \<and> int (nat (18 + 18 - 2) choose nat (18 - 1)) = 2333606220"
proof -
  have c: "int (nat (18 - 1) + nat (18 - 1) choose nat (18 - 1)) = 2333606220"
    using binomial_34_17 by simp
  have "unique_paths 18 18 = Inr (i32 (int ((nat (18 - 1) + nat (18 - 1)) choose nat (18 - 1))))"
    by (rule unique_paths_wrapped) simp_all
  then have "unique_paths 18 18 = Inr (- 1961361076)"
    unfolding c by (simp add: i32_def)
  moreover have "int (nat (18 + 18 - 2) choose nat (18 - 1)) = 2333606220"
    using binomial_34_17 by simp
  ultimately show ?thesis by simp
qed

end
